theory Spec2Isabelle
  imports Main "HOL-Library.Log_Nat"
begin

section \<open>Text: the string operations used by \<open>objective\<close>\<close>

text \<open>
  The captured output of the child process is a Python \<open>str\<close>. It is modelled as a
  \<open>string\<close> whose characters are the code points \<open>0..255\<close>; in that range the
  whitespace characters of \<open>str.strip\<close>, the line boundaries of \<open>str.splitlines\<close> and
  the decimal digits of the pattern class \<open>\d\<close> are the ones listed below.
\<close>

definition is_space :: "char \<Rightarrow> bool" where
  "is_space c \<longleftrightarrow> c \<in> set [CHR 0x09, CHR 0x0A, CHR 0x0B, CHR 0x0C, CHR 0x0D,
     CHR 0x1C, CHR 0x1D, CHR 0x1E, CHR 0x1F, CHR 0x20, CHR 0x85, CHR 0xA0]"

definition is_linebreak :: "char \<Rightarrow> bool" where
  "is_linebreak c \<longleftrightarrow> c \<in> set [CHR 0x0A, CHR 0x0B, CHR 0x0C, CHR 0x0D,
     CHR 0x1C, CHR 0x1D, CHR 0x1E, CHR 0x85]"

definition is_digit :: "char \<Rightarrow> bool" where
  "is_digit c \<longleftrightarrow> c \<in> set ''0123456789''"

text \<open>\<open>s.strip()\<close>: leading and trailing whitespace removed.\<close>

definition strip :: "string \<Rightarrow> string" where
  "strip s = rev (dropWhile is_space (rev (dropWhile is_space s)))"

text \<open>
  \<open>s.splitlines()\<close>: the text is cut at every line boundary, \<open>\r\n\<close> counting as one;
  the boundaries are dropped and a boundary at the very end opens no further line.
\<close>

function splitlines :: "string \<Rightarrow> string list" where
  "splitlines s =
     (if s = [] then []
      else (case dropWhile (\<lambda>c. \<not> is_linebreak c) s of
              [] \<Rightarrow> [s]
            | b # rest \<Rightarrow>
                takeWhile (\<lambda>c. \<not> is_linebreak c) s #
                  splitlines (if b = CHR 0x0D \<and> rest \<noteq> [] \<and> hd rest = CHR 0x0A
                              then tl rest else rest)))"
  by pat_completeness auto
termination
proof (relation "measure length")
  show "wf (measure length)" by simp
next
  fix s :: string and b rest
  assume ne: "s \<noteq> []" and dw: "dropWhile (\<lambda>c. \<not> is_linebreak c) s = b # rest"
  have "length (b # rest) \<le> length s"
    using length_dropWhile_le [of "\<lambda>c. \<not> is_linebreak c" s] dw by simp
  then have "length rest < length s" by simp
  moreover have "length (tl rest) \<le> length rest" by simp
  ultimately show "(if b = CHR 0x0D \<and> rest \<noteq> [] \<and> hd rest = CHR 0x0A then tl rest else rest, s)
      \<in> measure length"
    by auto
qed

declare splitlines.simps [simp del]

text \<open>\<open>sep.join(parts)\<close>.\<close>

fun join :: "string \<Rightarrow> string list \<Rightarrow> string" where
  "join sep [] = []"
| "join sep [x] = x"
| "join sep (x # y # ys) = x @ sep @ join sep (y # ys)"

section \<open>Regular expressions: \<open>re.search\<close>\<close>

text \<open>
  The fragment of Python's pattern language that the source's pattern uses: a
  character class, concatenation and the greedy quantifiers \<open>?\<close>, \<open>*\<close> and \<open>+\<close>.
\<close>

datatype regex =
    Chars string
  | Seq regex regex
  | Opt regex
  | Star regex
  | Plus regex

text \<open>
  The matcher is the backtracking one of \<open>re\<close>: \<open>rmatch r s\<close> lists, in the order in
  which backtracking tries them, the texts that remain after \<open>r\<close> has matched a prefix of
  \<open>s\<close>. A greedy quantifier tries one more repetition before it tries to stop, and a
  repetition that consumes nothing is abandoned.
\<close>

fun star_iter :: "(string \<Rightarrow> string list) \<Rightarrow> nat \<Rightarrow> string \<Rightarrow> string list" where
  "star_iter f 0 s = [s]"
| "star_iter f (Suc n) s =
     concat (map (\<lambda>s'. if length s' < length s then star_iter f n s' else []) (f s)) @ [s]"

primrec rmatch :: "regex \<Rightarrow> string \<Rightarrow> string list" where
  "rmatch (Chars cs) s = (case s of [] \<Rightarrow> [] | c # s' \<Rightarrow> if c \<in> set cs then [s'] else [])"
| "rmatch (Seq a b) s = concat (map (rmatch b) (rmatch a s))"
| "rmatch (Opt a) s = rmatch a s @ [s]"
| "rmatch (Star a) s = star_iter (rmatch a) (length s) s"
| "rmatch (Plus a) s = concat (map (\<lambda>s'. star_iter (rmatch a) (length s') s') (rmatch a s))"

text \<open>
  \<open>re.search(pattern, s)\<close> tries the start positions from left to right and takes the
  first match that backtracking finds at the first position that has one. The result is
  \<open>None\<close> or the matched text, \<open>m.group(0)\<close>.
\<close>

fun re_search :: "regex \<Rightarrow> string \<Rightarrow> string option" where
  "re_search r [] = (case rmatch r [] of [] \<Rightarrow> None | rest # _ \<Rightarrow> Some [])"
| "re_search r (c # s) =
     (case rmatch r (c # s) of
        [] \<Rightarrow> re_search r s
      | rest # _ \<Rightarrow> Some (take (length (c # s) - length rest) (c # s)))"

text \<open>The pattern of the source: \<open>[-+]?\d*\.?\d+(?:[eE][-+]?\d+)?\<close>.\<close>

definition digit :: regex where
  "digit = Chars ''0123456789''"

definition fitness_pattern :: regex where
  "fitness_pattern =
     Seq (Opt (Chars ''-+''))
    (Seq (Star digit)
    (Seq (Opt (Chars ''.''))
    (Seq (Plus digit)
         (Opt (Seq (Chars ''eE'') (Seq (Opt (Chars ''-+'')) (Plus digit)))))))"

section \<open>Floating-point values and \<open>float()\<close>\<close>

text \<open>
  A Python \<open>float\<close> is modelled by the number it denotes: a rational that binary64
  represents, one of the two infinities, or NaN. The two zeros are one value here.
\<close>

datatype pyfloat = Finite rat | PosInf | NegInf | NaN

definition ipow :: "rat \<Rightarrow> int \<Rightarrow> rat" where
  "ipow b k = (if 0 \<le> k then b ^ nat k else 1 / b ^ nat (- k))"

text \<open>For \<open>a > 0\<close>, the integer \<open>e\<close> with \<open>2^e \<le> a < 2^(e+1)\<close>.\<close>

definition floor_log2 :: "rat \<Rightarrow> int" where
  "floor_log2 a =
     (let k = bitlen (fst (quotient_of a)) - bitlen (snd (quotient_of a))
      in if ipow 2 k \<le> a then k else k - 1)"

definition round_half_even :: "rat \<Rightarrow> int" where
  "round_half_even x =
     (let n = \<lfloor>x\<rfloor>; r = x - of_int n
      in if r < 1 / 2 then n
         else if 1 / 2 < r then n + 1
         else if even n then n else n + 1)"

text \<open>
  Correct rounding of a rational to binary64, ties to even: 53 significant bits, the
  least exponent \<open>-1022\<close> (below it the spacing stays \<open>2^-1074\<close>), and a result of
  magnitude \<open>2^1024\<close> or more is the infinity of that sign. This is what \<open>float()\<close>
  does with the value of a decimal numeral; it raises no overflow error.
\<close>

definition round_to_double :: "rat \<Rightarrow> pyfloat" where
  "round_to_double q =
     (if q = 0 then Finite 0
      else let a = \<bar>q\<bar>;
               p = max (floor_log2 a) (- 1022) - 52;
               r = of_int (round_half_even (a / ipow 2 p)) * ipow 2 p
           in if ipow 2 1024 \<le> r then (if q < 0 then NegInf else PosInf)
              else Finite (if q < 0 then - r else r))"

text \<open>
  The exceptions of the model: the two that \<open>objective\<close> catches around
  \<open>subprocess.run\<close>, two others that \<open>subprocess.run\<close> can raise (the program is found
  but may not be executed; with \<open>text=True\<close>, the output cannot be decoded), and the one
  that \<open>float()\<close> raises.
\<close>

datatype exn =
    TimeoutExpired
  | FileNotFoundError
  | PermissionError
  | UnicodeDecodeError
  | ValueError

definition digit_value :: "char \<Rightarrow> nat" where
  "digit_value c = of_char c - 48"

definition digits_value :: "string \<Rightarrow> nat" where
  "digits_value ds = foldl (\<lambda>a c. 10 * a + digit_value c) 0 ds"

definition split_sign :: "string \<Rightarrow> bool \<times> string" where
  "split_sign s =
     (case s of
        [] \<Rightarrow> (False, [])
      | c # s' \<Rightarrow> if c = CHR ''-'' then (True, s')
                  else if c = CHR ''+'' then (False, s') else (False, s))"

definition lower :: "char \<Rightarrow> char" where
  "lower c = (if 65 \<le> (of_char c :: nat) \<and> (of_char c :: nat) \<le> 90
              then char_of ((of_char c :: nat) + 32) else c)"

text \<open>
  \<open>float()\<close> accepts an underscore only between two digits; \<open>prev\<close> is the character
  before the one being looked at.
\<close>

fun strip_underscores :: "char \<Rightarrow> string \<Rightarrow> string option" where
  "strip_underscores prev [] = (if prev = CHR ''_'' then None else Some [])"
| "strip_underscores prev (c # s) =
     (if c = CHR ''_'' then (if is_digit prev then strip_underscores c s else None)
      else if prev = CHR ''_'' \<and> \<not> is_digit c then None
      else map_option ((#) c) (strip_underscores c s))"

definition parse_exponent :: "string \<Rightarrow> int option" where
  "parse_exponent s =
     (case s of
        [] \<Rightarrow> Some 0
      | c # s' \<Rightarrow>
          if c \<in> set ''eE'' then
            (let (neg, ds) = split_sign s'
             in if ds \<noteq> [] \<and> list_all is_digit ds
                then Some (if neg then - int (digits_value ds) else int (digits_value ds))
                else None)
          else None)"

text \<open>
  The value of an unsigned decimal numeral: digits, an optional point with digits after
  it (a digit on at least one side of the point), an optional exponent.
\<close>

definition parse_decimal :: "string \<Rightarrow> rat option" where
  "parse_decimal s =
     (let ip = takeWhile is_digit s;
          r = dropWhile is_digit s;
          (fp, r2) = (case r of
                        [] \<Rightarrow> ([], [])
                      | c # r' \<Rightarrow> if c = CHR ''.''
                                  then (takeWhile is_digit r', dropWhile is_digit r')
                                  else ([], r))
      in if ip = [] \<and> fp = [] then None
         else (case parse_exponent r2 of
                 None \<Rightarrow> None
               | Some e \<Rightarrow>
                   Some (of_nat (digits_value (ip @ fp)) * ipow 10 (e - int (length fp)))))"

text \<open>
  The whitespace that \<open>float()\<close> ignores around its argument: the ASCII whitespace
  characters, and the two other whitespace characters below \<open>256\<close>, which it turns into
  spaces first. The separators \<open>0x1C\<close> to \<open>0x1F\<close> are not among them.
\<close>

definition is_float_space :: "char \<Rightarrow> bool" where
  "is_float_space c \<longleftrightarrow> c \<in> set [CHR 0x09, CHR 0x0A, CHR 0x0B, CHR 0x0C, CHR 0x0D,
     CHR 0x20, CHR 0x85, CHR 0xA0]"

definition float_strip :: "string \<Rightarrow> string" where
  "float_strip s = rev (dropWhile is_float_space (rev (dropWhile is_float_space s)))"

text \<open>
  \<open>float(s)\<close> for a string: surrounding whitespace is ignored; the text is a signed
  \<open>inf\<close>, \<open>infinity\<close> or \<open>nan\<close> in any letter case, or a signed decimal numeral;
  anything else raises \<open>ValueError\<close>.
\<close>

definition py_float :: "string \<Rightarrow> exn + pyfloat" where
  "py_float s =
     (case strip_underscores (CHR 0x00) (float_strip s) of
        None \<Rightarrow> Inl ValueError
      | Some u \<Rightarrow>
          (let (neg, body) = split_sign u
           in if map lower body = ''inf'' \<or> map lower body = ''infinity''
              then Inr (if neg then NegInf else PosInf)
              else if map lower body = ''nan'' then Inr NaN
              else (case parse_decimal body of
                      None \<Rightarrow> Inl ValueError
                    | Some q \<Rightarrow> Inr (round_to_double (if neg then - q else q)))))"

text \<open>\<open>str(n)\<close> for an \<open>int\<close>.\<close>

fun str_nat :: "nat \<Rightarrow> string" where
  "str_nat n = (if n < 10 then [char_of (48 + n)]
                else str_nat (n div 10) @ [char_of (48 + n mod 10)])"

declare str_nat.simps [simp del]

definition str_int :: "int \<Rightarrow> string" where
  "str_int i = (if i < 0 then CHR ''-'' # str_nat (nat (- i)) else str_nat (nat i))"

section \<open>The trial, the child process and the log\<close>

datatype pyval = PInt int | PFloat pyfloat

datatype distribution = IntDistribution int int | FloatDistribution pyfloat pyfloat

text \<open>
  The \<open>trial\<close> that the search strategy hands to \<open>objective\<close>: the strategy's choice of
  a value for a named parameter with given bounds, and the two dictionaries that the
  \<open>suggest\<close> calls fill, \<open>trial.params\<close> and \<open>trial.distributions\<close>.
\<close>

record trial =
  sample_int :: "string \<Rightarrow> int \<Rightarrow> int \<Rightarrow> int"
  sample_float :: "string \<Rightarrow> pyfloat \<Rightarrow> pyfloat \<Rightarrow> pyfloat"
  params :: "string \<rightharpoonup> pyval"
  distributions :: "string \<rightharpoonup> distribution"

text \<open>
  \<open>trial.suggest_int(name, low, high)\<close> and \<open>trial.suggest_float(name, low, high)\<close>: the
  value the strategy picks is returned and stored under \<open>name\<close>, with the request.
  \<open>objective\<close> asks for five different names, each once.
\<close>

definition suggest_int :: "trial \<Rightarrow> string \<Rightarrow> int \<Rightarrow> int \<Rightarrow> int \<times> trial" where
  "suggest_int t name low high =
     (let v = sample_int t name low high
      in (v, t\<lparr>params := (params t)(name \<mapsto> PInt v),
                distributions := (distributions t)(name \<mapsto> IntDistribution low high)\<rparr>))"

definition suggest_float :: "trial \<Rightarrow> string \<Rightarrow> pyfloat \<Rightarrow> pyfloat \<Rightarrow> pyfloat \<times> trial" where
  "suggest_float t name low high =
     (let v = sample_float t name low high
      in (v, t\<lparr>params := (params t)(name \<mapsto> PFloat v),
                distributions := (distributions t)(name \<mapsto> FloatDistribution low high)\<rparr>))"

text \<open>
  What \<open>subprocess.run\<close> returns when it returns; with \<open>capture_output=True\<close> and
  \<open>text=True\<close> both streams are strings.
\<close>

record completed_process =
  returncode :: int
  stdout :: string
  stderr :: string

text \<open>
  The surroundings of one call: the resolved path of the jar, the behaviour of
  \<open>subprocess.run(cmd, capture_output=True, text=True, timeout=300)\<close> on a command (a
  completed process or the exception it raises), and \<open>str\<close> on a \<open>float\<close>.
\<close>

record env =
  JAR_PATH :: string
  subprocess_run :: "string list \<Rightarrow> exn + completed_process"
  str_float :: "pyfloat \<Rightarrow> string"

text \<open>
  A record of the log: the level, the format string and its arguments
  (\<open>logging.warning(fmt, args)\<close>, \<open>logging.error(fmt, args)\<close>).
\<close>

datatype level = WARNING | ERROR

datatype log_arg =
    ArgParams "string \<rightharpoonup> pyval"
  | ArgExn exn
  | ArgInt int
  | ArgStr string

type_synonym log_record = "level \<times> string \<times> log_arg list"

section \<open>\<open>objective\<close>\<close>

text \<open>
  The non-empty lines of the combined output, each stripped:
  \<open>[line.strip() for line in combined.splitlines() if line.strip()]\<close>.
\<close>

definition lines :: "string \<Rightarrow> string list" where
  "lines combined = map strip (filter (\<lambda>line. strip line \<noteq> []) (splitlines combined))"

text \<open>
  The second half of \<open>objective\<close>, from the combined text to the returned value, with
  the records it logs. An exception of \<open>float()\<close> other than \<open>ValueError\<close> would leave
  the function.
\<close>

definition parse_fitness ::
  "(string \<rightharpoonup> pyval) \<Rightarrow> string \<Rightarrow> (exn + pyfloat) \<times> log_record list" where
  "parse_fitness ps combined =
     (if lines combined = []
      then (Inr PosInf, [(WARNING, ''No output to parse for params: %s'', [ArgParams ps])])
      else let last_line = last (lines combined)
           in (case re_search fitness_pattern last_line of
                 None \<Rightarrow>
                   (Inr PosInf,
                    [(WARNING, ''No numeric value found in last line: %s'', [ArgStr last_line])])
               | Some tok \<Rightarrow>
                   (case py_float tok of
                      Inr fitness \<Rightarrow> (Inr fitness, [])
                    | Inl e \<Rightarrow>
                        if e = ValueError
                        then (Inr PosInf,
                              [(WARNING, ''Failed to convert extracted token to float: %s'',
                                [ArgStr tok])])
                        else (Inl e, []))))"

text \<open>
  What one call of \<open>objective\<close> does: the value it returns or the exception that leaves
  it, the records it logs, the commands it hands to \<open>subprocess.run\<close>, and the trial
  after the \<open>suggest\<close> calls.
\<close>

record outcome =
  returned :: "exn + pyfloat"
  logged :: "log_record list"
  launched :: "string list list"
  trial_after :: trial

definition objective :: "env \<Rightarrow> trial \<Rightarrow> outcome" where
  "objective e trial0 =
     (let (swarmSize, t1) = suggest_int trial0 ''swarmSize'' 10 100;
          (maxIters, t2) = suggest_int t1 ''maxIters'' 50 1000;
          (inertias, t3) = suggest_float t2 ''inertias''
                             (round_to_double (1 / 10)) (round_to_double 1);
          (c1s, t4) = suggest_float t3 ''c1s'' (round_to_double (1 / 10)) (round_to_double 3);
          (c2s, t5) = suggest_float t4 ''c2s'' (round_to_double (1 / 10)) (round_to_double 3);
          cmd = [''java'', ''-jar'', JAR_PATH e,
                 str_int swarmSize, str_int maxIters,
                 str_float e inertias, str_float e c1s, str_float e c2s]
      in (case subprocess_run e cmd of
            Inl ex \<Rightarrow>
              if ex = TimeoutExpired
              then \<lparr>returned = Inr PosInf,
                    logged = [(WARNING, ''Subprocess timed out for params: %s'',
                               [ArgParams (params t5)])],
                    launched = [cmd], trial_after = t5\<rparr>
              else if ex = FileNotFoundError
              then \<lparr>returned = Inr PosInf,
                    logged = [(ERROR, ''Failed to run subprocess: %s'', [ArgExn ex])],
                    launched = [cmd], trial_after = t5\<rparr>
              else \<lparr>returned = Inl ex, logged = [], launched = [cmd], trial_after = t5\<rparr>
          | Inr result \<Rightarrow>
              (let log1 = (if returncode result \<noteq> 0
                           then [(WARNING, ''Jar exited with code %s. stderr: %s'',
                                  [ArgInt (returncode result), ArgStr (strip (stderr result))])]
                           else []);
                   combined = join ''\<newline>'' [stdout result, stderr result];
                   (value, log2) = parse_fitness (params t5) combined
               in \<lparr>returned = value, logged = log1 @ log2,
                    launched = [cmd], trial_after = t5\<rparr>)))"

section \<open>What the pattern denotes\<close>

text \<open>
  The set of texts that a pattern matches in full, independently of any matcher. A
  numeric token of the specification is a member of \<open>lang fitness_pattern\<close>: an optional
  sign, digits, an optional point, at least one digit, and an optional exponent (\<open>e\<close> or
  \<open>E\<close>, an optional sign, at least one digit).
\<close>

primrec lang :: "regex \<Rightarrow> string set" where
  "lang (Chars cs) = {[c] | c. c \<in> set cs}"
| "lang (Seq a b) = {u @ v | u v. u \<in> lang a \<and> v \<in> lang b}"
| "lang (Opt a) = insert [] (lang a)"
| "lang (Star a) = {concat ws | ws. set ws \<subseteq> lang a}"
| "lang (Plus a) = {concat ws | ws. ws \<noteq> [] \<and> set ws \<subseteq> lang a}"

text \<open>The texts that can remain after a member of \<open>A\<close> has been taken off the front of \<open>s\<close>.\<close>

definition remainders :: "string set \<Rightarrow> string \<Rightarrow> string set" where
  "remainders A s = {x. \<exists>w \<in> A. s = w @ x}"

text \<open>\<open>s\<close> has a substring that \<open>r\<close> matches.\<close>

definition contains_match :: "regex \<Rightarrow> string \<Rightarrow> bool" where
  "contains_match r s \<longleftrightarrow> (\<exists>pre w post. s = pre @ w @ post \<and> w \<in> lang r)"

text \<open>The characters that can occur in a numeric token.\<close>

definition token_char :: "char \<Rightarrow> bool" where
  "token_char c \<longleftrightarrow> c \<in> set ''+-.eE0123456789''"

text \<open>Names for the parts of \<open>fitness_pattern\<close>, from the exponent outwards.\<close>

abbreviation exponent_pat :: regex where
  "exponent_pat \<equiv> Seq (Chars ''eE'') (Seq (Opt (Chars ''-+'')) (Plus digit))"

abbreviation tail_pat :: regex where
  "tail_pat \<equiv> Seq (Plus digit) (Opt exponent_pat)"

abbreviation fraction_pat :: regex where
  "fraction_pat \<equiv> Seq (Opt (Chars ''.'')) tail_pat"

abbreviation mantissa_pat :: regex where
  "mantissa_pat \<equiv> Seq (Star digit) fraction_pat"

text \<open>
  The first entry of a list of remainders is a shortest one: the match that backtracking
  finds first is a longest one.
\<close>

definition shortest_first :: "string list \<Rightarrow> bool" where
  "shortest_first L \<longleftrightarrow> (\<forall>x \<in> set L. length (hd L) \<le> length x)"

section \<open>Names for what a call of \<open>objective\<close> does first\<close>

text \<open>
  The trial after the five \<open>suggest\<close> calls of \<open>objective\<close>, and the command that
  \<open>objective\<close> builds from the values drawn, written out; \<open>objective_alt\<close> proves that
  this is what the function computes.
\<close>

definition suggested :: "trial \<Rightarrow> trial" where
  "suggested t =
     t\<lparr>params := (params t)
          (''swarmSize'' \<mapsto> PInt (sample_int t ''swarmSize'' 10 100),
           ''maxIters'' \<mapsto> PInt (sample_int t ''maxIters'' 50 1000),
           ''inertias'' \<mapsto> PFloat (sample_float t ''inertias'' (round_to_double (1 / 10)) (round_to_double 1)),
           ''c1s'' \<mapsto> PFloat (sample_float t ''c1s'' (round_to_double (1 / 10)) (round_to_double 3)),
           ''c2s'' \<mapsto> PFloat (sample_float t ''c2s'' (round_to_double (1 / 10)) (round_to_double 3))),
       distributions := (distributions t)
          (''swarmSize'' \<mapsto> IntDistribution 10 100,
           ''maxIters'' \<mapsto> IntDistribution 50 1000,
           ''inertias'' \<mapsto> FloatDistribution (round_to_double (1 / 10)) (round_to_double 1),
           ''c1s'' \<mapsto> FloatDistribution (round_to_double (1 / 10)) (round_to_double 3),
           ''c2s'' \<mapsto> FloatDistribution (round_to_double (1 / 10)) (round_to_double 3))\<rparr>"

definition trial_cmd :: "env \<Rightarrow> trial \<Rightarrow> string list" where
  "trial_cmd e t =
     [''java'', ''-jar'', JAR_PATH e,
      str_int (sample_int t ''swarmSize'' 10 100),
      str_int (sample_int t ''maxIters'' 50 1000),
      str_float e (sample_float t ''inertias'' (round_to_double (1 / 10)) (round_to_double 1)),
      str_float e (sample_float t ''c1s'' (round_to_double (1 / 10)) (round_to_double 3)),
      str_float e (sample_float t ''c2s'' (round_to_double (1 / 10)) (round_to_double 3))]"

section \<open>Concrete trials and surroundings\<close>

text \<open>A trial whose strategy always picks the lower bound, before any \<open>suggest\<close> call.\<close>

definition fresh_trial :: trial where
  "fresh_trial =
     \<lparr>sample_int = (\<lambda>name low high. low), sample_float = (\<lambda>name low high. low),
      params = Map.empty, distributions = Map.empty\<rparr>"

text \<open>
  Surroundings in which every launch of the child process ends in \<open>r\<close>; \<open>str\<close> of the
  float \<open>0.1\<close>, the only one that \<open>fresh_trial\<close> draws, is \<open>0.1\<close>.
\<close>

definition example_env :: "exn + completed_process \<Rightarrow> env" where
  "example_env r =
     \<lparr>JAR_PATH = ''/opt/pso/thermoforming_optimization-1.0.jar'',
      subprocess_run = (\<lambda>cmd. r), str_float = (\<lambda>x. ''0.1'')\<rparr>"

section \<open>The last non-empty line and numeric tokens, in the specification's words\<close>

text \<open>
  The notions of this section are not taken from the code: they say, on the text itself,
  what the specification means by the last non-empty, whitespace-trimmed line, by a
  numeric token and the number it denotes, and by the first token of a line. The code's
  \<open>lines\<close>, \<open>re_search fitness_pattern\<close> and \<open>py_float\<close> are compared with them below.

  The value of a decimal digit, and of a string of decimal digits read in base ten.
\<close>

definition digit_of :: "char \<Rightarrow> nat" where
  "digit_of c = length (takeWhile (\<lambda>d. d \<noteq> c) ''0123456789'')"

fun dec :: "string \<Rightarrow> nat" where
  "dec [] = 0"
| "dec (c # cs) = digit_of c * 10 ^ length cs + dec cs"

text \<open>
  An exponent part is absent and denotes 0, or is \<open>e\<close> or \<open>E\<close>, an optional sign and at
  least one digit, and denotes the signed decimal number after the letter.
\<close>

definition exponent_denotes :: "string \<Rightarrow> int \<Rightarrow> bool" where
  "exponent_denotes ex k \<longleftrightarrow>
     ex = [] \<and> k = 0 \<or>
     (\<exists>c es ed. ex = c # es @ ed \<and> (c = CHR ''e'' \<or> c = CHR ''E'') \<and>
        ed \<noteq> [] \<and> list_all is_digit ed \<and>
        ((es = [] \<or> es = ''+'') \<and> k = int (dec ed) \<or> es = ''-'' \<and> k = - int (dec ed)))"

text \<open>
  A numeric token in decimal or scientific notation: an optional sign, digits (possibly
  none), an optional point, at least one digit, an optional exponent part. It denotes the
  rational number that the notation stands for: the digits read in base ten, scaled by
  ten to the exponent less the number of digits after the point, with the sign.
\<close>

definition token_denotes :: "string \<Rightarrow> rat \<Rightarrow> bool" where
  "token_denotes tok q \<longleftrightarrow>
     (\<exists>sg ip dt fd ex k.
        tok = sg @ ip @ dt @ fd @ ex \<and>
        (sg = [] \<or> sg = ''+'' \<or> sg = ''-'') \<and>
        list_all is_digit ip \<and> (dt = [] \<or> dt = ''.'') \<and>
        fd \<noteq> [] \<and> list_all is_digit fd \<and> exponent_denotes ex k \<and>
        q = (if sg = ''-'' then - 1 else 1) * of_nat (dec (ip @ fd)) *
            10 powi (k - (if dt = [] then 0 else int (length fd))))"

definition is_token :: "string \<Rightarrow> bool" where
  "is_token tok \<longleftrightarrow> (\<exists>q. token_denotes tok q)"

text \<open>A line contains a token when some substring of it is one.\<close>

definition has_token :: "string \<Rightarrow> bool" where
  "has_token l \<longleftrightarrow> (\<exists>a tok b. l = a @ tok @ b \<and> is_token tok)"

text \<open>
  The first token of a line: the occurrence that starts furthest to the left and, among
  the tokens starting there, the longest.
\<close>

definition first_token :: "string \<Rightarrow> string \<Rightarrow> bool" where
  "first_token l tok \<longleftrightarrow>
     (\<exists>a b. l = a @ tok @ b \<and> is_token tok \<and>
        (\<forall>a' tok' b'. l = a' @ tok' @ b' \<and> is_token tok' \<longrightarrow>
           length a < length a' \<or> (length a = length a' \<and> length tok' \<le> length tok)))"

text \<open>
  \<open>l\<close> is the last non-empty, whitespace-trimmed line of \<open>raw\<close>: \<open>raw\<close> is a prefix that is
  empty or ends with a line boundary, then whitespace, then \<open>l\<close>, then only whitespace;
  \<open>l\<close> is not empty, neither begins nor ends with whitespace, and has no line boundary
  inside.
\<close>

definition last_nonempty_line :: "string \<Rightarrow> string \<Rightarrow> bool" where
  "last_nonempty_line raw l \<longleftrightarrow>
     (\<exists>pre ind suf. raw = pre @ ind @ l @ suf \<and>
        (pre = [] \<or> is_linebreak (last pre)) \<and> list_all is_space ind \<and>
        l \<noteq> [] \<and> \<not> is_space (hd l) \<and> \<not> is_space (last l) \<and>
        list_all (\<lambda>c. \<not> is_linebreak c) l \<and> list_all is_space suf)"

section \<open>The matcher finds what the pattern denotes\<close>

lemma star_iter_sound:
  assumes f: "\<And>s. set (f s) \<subseteq> remainders A s"
  shows "x \<in> set (star_iter f n s) \<Longrightarrow> \<exists>ws. set ws \<subseteq> A \<and> s = concat ws @ x"
proof (induction n arbitrary: s)
  case 0
  then have "s = concat [] @ x" by simp
  then show ?case by (metis empty_set empty_subsetI)
next
  case (Suc n)
  show ?case
  proof (cases "x = s")
    case True
    then have "s = concat [] @ x" by simp
    then show ?thesis by (metis empty_set empty_subsetI)
  next
    case False
    with Suc.prems obtain s' where s': "s' \<in> set (f s)" "x \<in> set (star_iter f n s')"
      by (auto split: if_splits)
    from s'(1) f obtain w where w: "w \<in> A" "s = w @ s'"
      by (auto simp: remainders_def)
    from Suc.IH [OF s'(2)] obtain ws where ws: "set ws \<subseteq> A" "s' = concat ws @ x" by blast
    have "set (w # ws) \<subseteq> A" "s = concat (w # ws) @ x" using w ws by auto
    then show ?thesis by blast
  qed
qed

lemma star_iter_last: "s \<in> set (star_iter f n s)"
  by (cases n) auto

lemma star_iter_complete:
  assumes f: "\<And>s. remainders A s \<subseteq> set (f s)"
  shows "set ws \<subseteq> A \<Longrightarrow> s = concat ws @ x \<Longrightarrow> length s \<le> n \<Longrightarrow> x \<in> set (star_iter f n s)"
proof (induction ws arbitrary: s n)
  case Nil
  then show ?case by (simp add: star_iter_last)
next
  case (Cons w ws)
  show ?case
  proof (cases "w = []")
    case True
    with Cons.prems have "set ws \<subseteq> A" "s = concat ws @ x" by auto
    from Cons.IH [OF this Cons.prems(3)] show ?thesis .
  next
    case False
    define s' where "s' = concat ws @ x"
    have s: "s = w @ s'" using Cons.prems(2) by (simp add: s'_def)
    have lt: "length s' < length s" using False s by simp
    then obtain m where n: "n = Suc m" using Cons.prems(3) by (cases n) auto
    have "w \<in> A" using Cons.prems(1) by simp
    then have "s' \<in> remainders A s" using s by (auto simp: remainders_def)
    then have mem: "s' \<in> set (f s)" using f by blast
    have "x \<in> set (star_iter f m s')"
      using Cons.IH [of s' m] Cons.prems(1,3) lt n by (simp add: s'_def)
    then show ?thesis using mem lt by (auto simp: n)
  qed
qed

lemma rmatch_lang: "set (rmatch r s) = remainders (lang r) s"
proof (induction r arbitrary: s)
  case (Chars cs)
  show ?case by (cases s) (auto simp: remainders_def)
next
  case (Seq a b)
  show ?case
  proof (rule set_eqI)
    fix x
    show "x \<in> set (rmatch (Seq a b) s) \<longleftrightarrow> x \<in> remainders (lang (Seq a b)) s"
    proof
      assume "x \<in> set (rmatch (Seq a b) s)"
      then obtain y where "y \<in> set (rmatch a s)" "x \<in> set (rmatch b y)" by auto
      then obtain u v where "u \<in> lang a" "s = u @ y" "v \<in> lang b" "y = v @ x"
        using Seq.IH by (auto simp: remainders_def)
      then have "u @ v \<in> lang (Seq a b)" "s = (u @ v) @ x" by auto
      then show "x \<in> remainders (lang (Seq a b)) s" unfolding remainders_def by blast
    next
      assume "x \<in> remainders (lang (Seq a b)) s"
      then obtain u v where uv: "u \<in> lang a" "v \<in> lang b" "s = (u @ v) @ x"
        by (auto simp: remainders_def)
      then have "v @ x \<in> set (rmatch a s)" using Seq.IH(1) [of s] by (auto simp: remainders_def)
      moreover have "x \<in> set (rmatch b (v @ x))"
        using uv Seq.IH(2) [of "v @ x"] by (auto simp: remainders_def)
      ultimately show "x \<in> set (rmatch (Seq a b) s)" by auto
    qed
  qed
next
  case (Opt a)
  show ?case using Opt.IH [of s] by (auto simp: remainders_def)
next
  case (Star a)
  have 1: "\<And>s. set (rmatch a s) \<subseteq> remainders (lang a) s" using Star.IH by simp
  have 2: "\<And>s. remainders (lang a) s \<subseteq> set (rmatch a s)" using Star.IH by simp
  show ?case
  proof (rule set_eqI)
    fix x
    show "x \<in> set (rmatch (Star a) s) \<longleftrightarrow> x \<in> remainders (lang (Star a)) s"
    proof
      assume "x \<in> set (rmatch (Star a) s)"
      then have "x \<in> set (star_iter (rmatch a) (length s) s)" by simp
      from star_iter_sound [of "rmatch a" "lang a", OF 1 this]
      obtain ws where ws: "set ws \<subseteq> lang a" "s = concat ws @ x" by blast
      then have "concat ws \<in> lang (Star a)" by (simp only: lang.simps) blast
      then show "x \<in> remainders (lang (Star a)) s"
        unfolding remainders_def using ws(2) by blast
    next
      assume "x \<in> remainders (lang (Star a)) s"
      then obtain ws where ws: "set ws \<subseteq> lang a" "s = concat ws @ x"
        by (auto simp: remainders_def)
      have "x \<in> set (star_iter (rmatch a) (length s) s)"
        using star_iter_complete [of "lang a" "rmatch a" ws s x "length s", OF 2] ws by simp
      then show "x \<in> set (rmatch (Star a) s)" by simp
    qed
  qed
next
  case (Plus a)
  have 1: "\<And>s. set (rmatch a s) \<subseteq> remainders (lang a) s" using Plus.IH by simp
  have 2: "\<And>s. remainders (lang a) s \<subseteq> set (rmatch a s)" using Plus.IH by simp
  show ?case
  proof (rule set_eqI)
    fix x
    show "x \<in> set (rmatch (Plus a) s) \<longleftrightarrow> x \<in> remainders (lang (Plus a)) s"
    proof
      assume "x \<in> set (rmatch (Plus a) s)"
      then obtain y where y: "y \<in> set (rmatch a s)" "x \<in> set (star_iter (rmatch a) (length y) y)"
        by auto
      from y(1) obtain w where w: "w \<in> lang a" "s = w @ y" using 1 by (auto simp: remainders_def)
      from star_iter_sound [of "rmatch a" "lang a", OF 1 y(2)]
      obtain ws where ws: "set ws \<subseteq> lang a" "y = concat ws @ x" by blast
      have "w # ws \<noteq> []" "set (w # ws) \<subseteq> lang a" "s = concat (w # ws) @ x" using w ws by auto
      then have "concat (w # ws) \<in> lang (Plus a)" by (simp only: lang.simps) blast
      then show "x \<in> remainders (lang (Plus a)) s"
        unfolding remainders_def using \<open>s = concat (w # ws) @ x\<close> by blast
    next
      assume "x \<in> remainders (lang (Plus a)) s"
      then obtain ws where ws: "ws \<noteq> []" "set ws \<subseteq> lang a" "s = concat ws @ x"
        by (auto simp: remainders_def)
      then obtain w ws' where c: "ws = w # ws'" by (cases ws) auto
      define y where "y = concat ws' @ x"
      have "w \<in> lang a" "s = w @ y" using ws c by (auto simp: y_def)
      then have "y \<in> set (rmatch a s)" using 2 by (auto simp: remainders_def)
      moreover have "x \<in> set (star_iter (rmatch a) (length y) y)"
        using star_iter_complete [of "lang a" "rmatch a" ws' y x "length y", OF 2] ws c
        by (simp add: y_def)
      ultimately show "x \<in> set (rmatch (Plus a) s)" by auto
    qed
  qed
qed


lemma rmatch_memI: "w \<in> lang r \<Longrightarrow> x \<in> set (rmatch r (w @ x))"
  by (auto simp: rmatch_lang remainders_def)

lemma rmatch_memD: "x \<in> set (rmatch r s) \<Longrightarrow> \<exists>w \<in> lang r. s = w @ x"
  by (auto simp: rmatch_lang remainders_def)

lemma re_search_NoneD:
  "re_search r s = None \<Longrightarrow> s = pre @ w @ post \<Longrightarrow> w \<notin> lang r"
proof (induction s arbitrary: pre)
  case Nil
  then have "rmatch r [] = []" "w = []" by (auto split: list.splits)
  then show ?case using rmatch_memI [of w r "[]"] by auto
next
  case (Cons c s)
  from Cons.prems(1) have e: "rmatch r (c # s) = []" and n: "re_search r s = None"
    by (auto split: list.splits)
  show ?case
  proof (cases pre)
    case Nil
    then have "c # s = w @ post" using Cons.prems(2) by simp
    then show ?thesis using rmatch_memI [of w r post] e by auto
  next
    case (Cons d pre')
    then have "s = pre' @ w @ post" using Cons.prems(2) by simp
    from Cons.IH [OF n this] show ?thesis .
  qed
qed

lemma re_search_SomeD:
  "re_search r s = Some t \<Longrightarrow>
     \<exists>pre post. s = pre @ t @ post \<and> rmatch r (t @ post) \<noteq> [] \<and>
       hd (rmatch r (t @ post)) = post \<and> (\<forall>k < length pre. rmatch r (drop k s) = [])"
proof (induction s)
  case Nil
  then have "t = []" "rmatch r [] \<noteq> []" by (auto split: list.splits)
  moreover from this have "hd (rmatch r []) = []"
    using rmatch_memD [of "hd (rmatch r [])" r "[]"] by auto
  ultimately show ?case by auto
next
  case (Cons c s)
  show ?case
  proof (cases "rmatch r (c # s)")
    case Nil
    then have "re_search r s = Some t" using Cons.prems by simp
    from Cons.IH [OF this] obtain pre post where
      p: "s = pre @ t @ post" "rmatch r (t @ post) \<noteq> []" "hd (rmatch r (t @ post)) = post"
         "\<forall>k < length pre. rmatch r (drop k s) = []" by blast
    have "\<forall>k < length (c # pre). rmatch r (drop k (c # s)) = []"
    proof (intro allI impI)
      fix k assume "k < length (c # pre)"
      then show "rmatch r (drop k (c # s)) = []"
        using Nil p(4) by (cases k) auto
    qed
    moreover have "c # s = (c # pre) @ t @ post" using p(1) by simp
    ultimately show ?thesis using p(2,3) by blast
  next
    case (Cons rest rs)
    then have t: "t = take (length (c # s) - length rest) (c # s)" using Cons.prems by simp
    from Cons have "rest \<in> set (rmatch r (c # s))" by simp
    from rmatch_memD [OF this] obtain w where w: "w \<in> lang r" "c # s = w @ rest" by blast
    then have "t = w" using t by simp
    then have "c # s = [] @ t @ rest" "rmatch r (t @ rest) \<noteq> []" "hd (rmatch r (t @ rest)) = rest"
      using w Cons by auto
    then show ?thesis by (metis length_0_conv not_less_zero list.size(3))
  qed
qed

lemma re_search_None_iff: "re_search r s = None \<longleftrightarrow> \<not> contains_match r s"
proof
  assume "re_search r s = None"
  then show "\<not> contains_match r s"
    unfolding contains_match_def using re_search_NoneD by blast
next
  assume n: "\<not> contains_match r s"
  show "re_search r s = None"
  proof (rule ccontr)
    assume "re_search r s \<noteq> None"
    then obtain t where "re_search r s = Some t" by auto
    from re_search_SomeD [OF this] obtain pre post where
      p: "s = pre @ t @ post" "rmatch r (t @ post) \<noteq> []" "hd (rmatch r (t @ post)) = post" by blast
    then have "post \<in> set (rmatch r (t @ post))" by (metis hd_in_set)
    from rmatch_memD [OF this] have "t \<in> lang r" by auto
    then show False using n p(1) unfolding contains_match_def by blast
  qed
qed

lemma re_search_leftmost:
  assumes "re_search r s = Some t"
  shows "\<exists>pre post. s = pre @ t @ post \<and> t \<in> lang r \<and>
           rmatch r (t @ post) \<noteq> [] \<and> hd (rmatch r (t @ post)) = post \<and>
           (\<forall>pre' w' post'. s = pre' @ w' @ post' \<and> w' \<in> lang r \<longrightarrow> length pre \<le> length pre')"
proof -
  from re_search_SomeD [OF assms] obtain pre post where
    p: "s = pre @ t @ post" "rmatch r (t @ post) \<noteq> []" "hd (rmatch r (t @ post)) = post"
       "\<forall>k < length pre. rmatch r (drop k s) = []" by blast
  from p(2,3) have "post \<in> set (rmatch r (t @ post))" by (metis hd_in_set)
  from rmatch_memD [OF this] have t: "t \<in> lang r" by auto
  have "length pre \<le> length pre'" if "s = pre' @ w' @ post'" "w' \<in> lang r" for pre' w' post'
  proof (rule ccontr)
    assume "\<not> length pre \<le> length pre'"
    then have "rmatch r (drop (length pre') s) = []" using p(4) by simp
    moreover have "drop (length pre') s = w' @ post'" using that(1) by simp
    ultimately show False using rmatch_memI [OF that(2), of post'] by simp
  qed
  then show ?thesis using p(1,2,3) t by blast
qed

section \<open>The tokens of the pattern and \<open>float()\<close>\<close>

lemma lang_digit: "lang digit = {[c] | c. is_digit c}"
  by (simp add: digit_def is_digit_def)

lemma concat_digits: "set ws \<subseteq> {[c] | c. is_digit c} \<Longrightarrow> list_all is_digit (concat ws)"
  by (induction ws) auto

lemma digits_concat: "list_all is_digit ds \<Longrightarrow> ds = concat (map (\<lambda>c. [c]) ds) \<and> set (map (\<lambda>c. [c]) ds) \<subseteq> {[c] | c. is_digit c}"
  by (induction ds) auto

lemma lang_Star_digit: "lang (Star digit) = {ds. list_all is_digit ds}"
proof (rule set_eqI)
  fix w
  show "w \<in> lang (Star digit) \<longleftrightarrow> w \<in> {ds. list_all is_digit ds}"
  proof
    assume "w \<in> lang (Star digit)"
    then show "w \<in> {ds. list_all is_digit ds}"
      using concat_digits by (auto simp: lang_digit)
  next
    assume "w \<in> {ds. list_all is_digit ds}"
    then have "w = concat (map (\<lambda>c. [c]) w)" "set (map (\<lambda>c. [c]) w) \<subseteq> lang digit"
      using digits_concat [of w] by (simp_all add: lang_digit)
    then show "w \<in> lang (Star digit)" by (simp only: lang.simps) blast
  qed
qed

lemma lang_Plus_digit: "lang (Plus digit) = {ds. ds \<noteq> [] \<and> list_all is_digit ds}"
proof (rule set_eqI)
  fix w
  show "w \<in> lang (Plus digit) \<longleftrightarrow> w \<in> {ds. ds \<noteq> [] \<and> list_all is_digit ds}"
  proof
    assume "w \<in> lang (Plus digit)"
    then obtain ws where ws: "ws \<noteq> []" "set ws \<subseteq> lang digit" "w = concat ws" by auto
    then obtain v vs where "ws = v # vs" by (cases ws) auto
    then have "w \<noteq> []" using ws by (auto simp: lang_digit)
    then show "w \<in> {ds. ds \<noteq> [] \<and> list_all is_digit ds}"
      using concat_digits [of ws] ws by (simp add: lang_digit)
  next
    assume "w \<in> {ds. ds \<noteq> [] \<and> list_all is_digit ds}"
    then have "w = concat (map (\<lambda>c. [c]) w)" "set (map (\<lambda>c. [c]) w) \<subseteq> lang digit"
        "map (\<lambda>c. [c]) w \<noteq> []"
      using digits_concat [of w] by (simp_all add: lang_digit)
    then show "w \<in> lang (Plus digit)" by (simp only: lang.simps) blast
  qed
qed

lemma lang_SeqE:
  assumes "w \<in> lang (Seq a b)"
  obtains u v where "w = u @ v" "u \<in> lang a" "v \<in> lang b"
  using assms by auto

lemma lang_sign: "sg \<in> lang (Opt (Chars ''-+'')) \<longleftrightarrow> sg = [] \<or> sg = ''-'' \<or> sg = ''+''"
  by auto

lemma lang_point: "dt \<in> lang (Opt (Chars ''.'')) \<longleftrightarrow> dt = [] \<or> dt = ''.''"
  by auto

lemma lang_exponentD:
  assumes "ex \<in> lang (Seq (Chars ''eE'') (Seq (Opt (Chars ''-+'')) (Plus digit)))"
  shows "\<exists>e es ed. ex = e # es @ ed \<and> (e = CHR ''e'' \<or> e = CHR ''E'') \<and>
           (es = [] \<or> es = ''-'' \<or> es = ''+'') \<and> ed \<noteq> [] \<and> list_all is_digit ed"
proof -
  from assms obtain u v where 1: "ex = u @ v" "u \<in> lang (Chars ''eE'')"
      "v \<in> lang (Seq (Opt (Chars ''-+'')) (Plus digit))"
    by (rule lang_SeqE)
  from 1(3) obtain es ed where 2: "v = es @ ed" "es \<in> lang (Opt (Chars ''-+''))"
      "ed \<in> lang (Plus digit)"
    by (rule lang_SeqE)
  from 1(2) obtain e where e: "u = [e]" "e = CHR ''e'' \<or> e = CHR ''E''" by auto
  have "ex = e # es @ ed" using 1(1) 2(1) e(1) by simp
  moreover have "es = [] \<or> es = ''-'' \<or> es = ''+''" using 2(2) by (simp only: lang_sign)
  moreover have "ed \<noteq> [] \<and> list_all is_digit ed" using 2(3) [unfolded lang_Plus_digit] by simp
  ultimately show ?thesis using e(2) by blast
qed

lemma lang_fitness_patternD:
  assumes "w \<in> lang fitness_pattern"
  shows "\<exists>sg ip dt fd ex. w = sg @ ip @ dt @ fd @ ex \<and>
           (sg = [] \<or> sg = ''-'' \<or> sg = ''+'') \<and> list_all is_digit ip \<and>
           (dt = [] \<or> dt = ''.'') \<and> fd \<noteq> [] \<and> list_all is_digit fd \<and>
           (ex = [] \<or> (\<exists>e es ed. ex = e # es @ ed \<and> (e = CHR ''e'' \<or> e = CHR ''E'') \<and>
              (es = [] \<or> es = ''-'' \<or> es = ''+'') \<and> ed \<noteq> [] \<and> list_all is_digit ed))"
proof -
  from assms [unfolded fitness_pattern_def] obtain sg r1 where 1: "w = sg @ r1"
      "sg \<in> lang (Opt (Chars ''-+''))"
      "r1 \<in> lang (Seq (Star digit) (Seq (Opt (Chars ''.'')) (Seq (Plus digit)
         (Opt (Seq (Chars ''eE'') (Seq (Opt (Chars ''-+'')) (Plus digit)))))))"
    by (rule lang_SeqE)
  from 1(3) obtain ip r2 where 2: "r1 = ip @ r2" "ip \<in> lang (Star digit)"
      "r2 \<in> lang (Seq (Opt (Chars ''.'')) (Seq (Plus digit)
         (Opt (Seq (Chars ''eE'') (Seq (Opt (Chars ''-+'')) (Plus digit))))))"
    by (rule lang_SeqE)
  from 2(3) obtain dt r3 where 3: "r2 = dt @ r3" "dt \<in> lang (Opt (Chars ''.''))"
      "r3 \<in> lang (Seq (Plus digit)
         (Opt (Seq (Chars ''eE'') (Seq (Opt (Chars ''-+'')) (Plus digit)))))"
    by (rule lang_SeqE)
  from 3(3) obtain fd ex where 4: "r3 = fd @ ex" "fd \<in> lang (Plus digit)"
      "ex \<in> lang (Opt (Seq (Chars ''eE'') (Seq (Opt (Chars ''-+'')) (Plus digit))))"
    by (rule lang_SeqE)
  have "w = sg @ ip @ dt @ fd @ ex" using 1(1) 2(1) 3(1) 4(1) by simp
  moreover have "sg = [] \<or> sg = ''-'' \<or> sg = ''+''" using 1(2) by (simp only: lang_sign)
  moreover have "list_all is_digit ip" using 2(2) [unfolded lang_Star_digit] by simp
  moreover have "dt = [] \<or> dt = ''.''" using 3(2) by (simp only: lang_point)
  moreover have "fd \<noteq> [] \<and> list_all is_digit fd" using 4(2) [unfolded lang_Plus_digit] by simp
  moreover have "ex = [] \<or> (\<exists>e es ed. ex = e # es @ ed \<and> (e = CHR ''e'' \<or> e = CHR ''E'') \<and>
              (es = [] \<or> es = ''-'' \<or> es = ''+'') \<and> ed \<noteq> [] \<and> list_all is_digit ed)"
  proof (cases "ex = []")
    case False
    then have "ex \<in> lang (Seq (Chars ''eE'') (Seq (Opt (Chars ''-+'')) (Plus digit)))"
      using 4(3) by simp
    from lang_exponentD [OF this] show ?thesis by blast
  qed simp
  ultimately show ?thesis by blast
qed

lemma span_digits:
  assumes "list_all is_digit ds" "r = [] \<or> \<not> is_digit (hd r)"
  shows "takeWhile is_digit (ds @ r) = ds" "dropWhile is_digit (ds @ r) = r"
proof -
  have a: "\<forall>x \<in> set ds. is_digit x" using assms(1) by (simp add: list_all_iff)
  have t: "takeWhile is_digit r = []" and d: "dropWhile is_digit r = r"
    using assms(2) by (cases r; simp)+
  show "takeWhile is_digit (ds @ r) = ds" using a t by (simp add: takeWhile_append2)
  show "dropWhile is_digit (ds @ r) = r" using a d by (simp add: dropWhile_append2)
qed

lemma digit_not_sign: "is_digit c \<Longrightarrow> c \<noteq> CHR ''-'' \<and> c \<noteq> CHR ''+'' \<and> c \<noteq> CHR ''.''"
  by (auto simp: is_digit_def)

lemma split_sign_digits:
  assumes "ed \<noteq> []" "list_all is_digit ed"
  shows "split_sign ed = (False, ed)" "split_sign (''-'' @ ed) = (True, ed)"
    "split_sign (''+'' @ ed) = (False, ed)"
proof -
  obtain c cs where c: "ed = c # cs" using assms(1) by (cases ed) auto
  then have "is_digit c" using assms(2) by simp
  then show "split_sign ed = (False, ed)" using c digit_not_sign [of c] by (simp add: split_sign_def)
  show "split_sign (''-'' @ ed) = (True, ed)" by (simp add: split_sign_def)
  show "split_sign (''+'' @ ed) = (False, ed)" by (simp add: split_sign_def)
qed

lemma parse_exponent_Some:
  assumes "ex = e # es @ ed" "e = CHR ''e'' \<or> e = CHR ''E''"
    "es = [] \<or> es = ''-'' \<or> es = ''+''" "ed \<noteq> []" "list_all is_digit ed"
  shows "\<exists>k. parse_exponent ex = Some k"
proof -
  from assms(3) have "\<exists>neg. split_sign (es @ ed) = (neg, ed)"
    using split_sign_digits [OF assms(4,5)] by auto
  then obtain neg where n: "split_sign (es @ ed) = (neg, ed)" by blast
  have "parse_exponent (e # es @ ed) =
      Some (if neg then - int (digits_value ed) else int (digits_value ed))"
    using assms(2,4,5) n by (auto simp: parse_exponent_def)
  then show ?thesis using assms(1) by simp
qed

lemma parse_decimal_token:
  assumes ip: "list_all is_digit ip" and dt: "dt = [] \<or> dt = ''.''"
    and fd: "fd \<noteq> []" "list_all is_digit fd"
    and ex: "ex = [] \<or> (\<exists>e es ed. ex = e # es @ ed \<and> (e = CHR ''e'' \<or> e = CHR ''E'') \<and>
              (es = [] \<or> es = ''-'' \<or> es = ''+'') \<and> ed \<noteq> [] \<and> list_all is_digit ed)"
  shows "\<exists>q. parse_decimal (ip @ dt @ fd @ ex) = Some q"
proof -
  have exd: "ex = [] \<or> \<not> is_digit (hd ex)" using ex by (auto simp: is_digit_def)
  have exp: "ex = [] \<or> hd ex \<noteq> CHR ''.''" using ex by auto
  have pe: "\<exists>k. parse_exponent ex = Some k"
  proof (cases "ex = []")
    case True
    then show ?thesis by (simp add: parse_exponent_def)
  next
    case False
    with ex obtain e es ed where "ex = e # es @ ed" "e = CHR ''e'' \<or> e = CHR ''E''"
      "es = [] \<or> es = ''-'' \<or> es = ''+''" "ed \<noteq> []" "list_all is_digit ed" by blast
    then show ?thesis by (rule parse_exponent_Some)
  qed
  then obtain k where k: "parse_exponent ex = Some k" by blast
  from dt show ?thesis
  proof
    assume "dt = []"
    have all: "list_all is_digit (ip @ fd)" using ip fd(2) by simp
    have t: "takeWhile is_digit ((ip @ fd) @ ex) = ip @ fd"
      and d: "dropWhile is_digit ((ip @ fd) @ ex) = ex"
      using span_digits [OF all exd] by blast+
    have ne: "ip @ fd \<noteq> []" using fd(1) by simp
    have "\<exists>q. parse_decimal ((ip @ fd) @ ex) = Some q"
    proof (cases ex)
      case Nil
      show ?thesis
        apply (simp only: parse_decimal_def t d)
        using ne k Nil by simp
    next
      case (Cons c cs)
      then have c: "c \<noteq> CHR ''.''" using exp by simp
      show ?thesis
        apply (simp only: parse_decimal_def t d)
        using ne k Cons c by simp
    qed
    then show ?thesis using \<open>dt = []\<close> by simp
  next
    assume dt: "dt = ''.''"
    have t: "takeWhile is_digit (ip @ (CHR ''.'' # fd @ ex)) = ip"
      and d: "dropWhile is_digit (ip @ (CHR ''.'' # fd @ ex)) = CHR ''.'' # fd @ ex"
      using span_digits [OF ip, of "CHR ''.'' # fd @ ex"] by (simp_all add: is_digit_def)
    have t2: "takeWhile is_digit (fd @ ex) = fd" and d2: "dropWhile is_digit (fd @ ex) = ex"
      using span_digits [OF fd(2) exd] by blast+
    have "\<exists>q. parse_decimal (ip @ (CHR ''.'' # fd @ ex)) = Some q"
      apply (simp only: parse_decimal_def t d)
      apply (simp only: Let_def list.case if_True t2 d2 prod.case)
      using fd(1) k by simp
    then show ?thesis using dt by simp
  qed
qed

lemma strip_id:
  assumes "s \<noteq> []" "\<not> is_space (hd s)" "\<not> is_space (last s)"
  shows "strip s = s"
proof -
  have 1: "dropWhile is_space s = s" using assms(1,2) by (cases s) auto
  have "rev s \<noteq> []" "\<not> is_space (hd (rev s))" using assms(1,3) by (simp_all add: hd_rev)
  then have 2: "dropWhile is_space (rev s) = rev s" by (cases "rev s") auto
  show ?thesis by (simp add: strip_def 1 2)
qed

lemma is_float_space_is_space: "is_float_space c \<Longrightarrow> is_space c"
  by (auto simp: is_float_space_def is_space_def)

lemma float_strip_id:
  assumes "s \<noteq> []" "\<not> is_space (hd s)" "\<not> is_space (last s)"
  shows "float_strip s = s"
proof -
  have a: "\<not> is_float_space (hd s)" "\<not> is_float_space (last s)"
    using assms(2,3) is_float_space_is_space by blast+
  have 1: "dropWhile is_float_space s = s" using assms(1) a(1) by (cases s) auto
  have "rev s \<noteq> []" "\<not> is_float_space (hd (rev s))" using assms(1) a(2) by (simp_all add: hd_rev)
  then have 2: "dropWhile is_float_space (rev s) = rev s" by (cases "rev s") auto
  show ?thesis by (simp add: float_strip_def 1 2)
qed

lemma strip_underscores_id:
  "CHR ''_'' \<notin> set s \<Longrightarrow> prev \<noteq> CHR ''_'' \<Longrightarrow> strip_underscores prev s = Some s"
  by (induction s arbitrary: prev) auto

lemma token_char_digits: "list_all is_digit ds \<Longrightarrow> list_all token_char ds"
  by (induction ds) (auto simp: is_digit_def token_char_def)

lemma token_char_props:
  "token_char c \<Longrightarrow> \<not> is_space c \<and> c \<noteq> CHR ''_''"
  by (auto simp: token_char_def is_space_def)

lemma last_digits: "ds \<noteq> [] \<Longrightarrow> list_all is_digit ds \<Longrightarrow> is_digit (last ds)"
  by (simp add: list_all_iff)

lemma lang_fitness_pattern_chars:
  assumes "w \<in> lang fitness_pattern"
  shows "w \<noteq> []" "list_all token_char w" "is_digit (last w)"
proof -
  from lang_fitness_patternD [OF assms] obtain sg ip dt fd ex where
    w: "w = sg @ ip @ dt @ fd @ ex" and sg: "sg = [] \<or> sg = ''-'' \<or> sg = ''+''"
    and ip: "list_all is_digit ip" and dt: "dt = [] \<or> dt = ''.''"
    and fd: "fd \<noteq> []" "list_all is_digit fd"
    and ex: "ex = [] \<or> (\<exists>e es ed. ex = e # es @ ed \<and> (e = CHR ''e'' \<or> e = CHR ''E'') \<and>
              (es = [] \<or> es = ''-'' \<or> es = ''+'') \<and> ed \<noteq> [] \<and> list_all is_digit ed)"
    by blast
  show "w \<noteq> []" using w fd(1) by simp
  have 1: "list_all token_char sg" using sg by (auto simp: token_char_def)
  have 2: "list_all token_char dt" using dt by (auto simp: token_char_def)
  have 3: "list_all token_char ex \<and> (ex \<noteq> [] \<longrightarrow> is_digit (last ex))"
  proof (cases "ex = []")
    case False
    with ex obtain e es ed where e: "ex = e # es @ ed" "e = CHR ''e'' \<or> e = CHR ''E''"
      "es = [] \<or> es = ''-'' \<or> es = ''+''" "ed \<noteq> []" "list_all is_digit ed" by blast
    have "list_all token_char [e]" "list_all token_char es"
      using e(2,3) by (auto simp: token_char_def)
    moreover have "last ex = last ed" using e(1,4) by simp
    ultimately show ?thesis
      using e(1,4,5) token_char_digits [of ed] last_digits [of ed] by simp
  qed simp
  show "list_all token_char w"
    using w 1 2 3 token_char_digits [OF ip] token_char_digits [OF fd(2)] by simp
  show "is_digit (last w)"
  proof (cases "ex = []")
    case True
    then show ?thesis using w fd last_digits [of fd] by simp
  next
    case False
    then show ?thesis using w 3 by simp
  qed
qed

lemma py_float_token:
  assumes "w \<in> lang fitness_pattern"
  shows "\<exists>q. py_float w = Inr (round_to_double q)"
proof -
  from lang_fitness_patternD [OF assms] obtain sg ip dt fd ex where
    w: "w = sg @ ip @ dt @ fd @ ex" and sg: "sg = [] \<or> sg = ''-'' \<or> sg = ''+''"
    and ip: "list_all is_digit ip" and dt: "dt = [] \<or> dt = ''.''"
    and fd: "fd \<noteq> []" "list_all is_digit fd"
    and ex: "ex = [] \<or> (\<exists>e es ed. ex = e # es @ ed \<and> (e = CHR ''e'' \<or> e = CHR ''E'') \<and>
              (es = [] \<or> es = ''-'' \<or> es = ''+'') \<and> ed \<noteq> [] \<and> list_all is_digit ed)"
    by blast
  define body where "body = ip @ dt @ fd @ ex"
  note ch = lang_fitness_pattern_chars [OF assms]
  have "token_char (hd w)" "token_char (last w)"
    using ch(1,2) by (simp_all add: list_all_iff)
  then have "float_strip w = w" using float_strip_id [of w] ch(1) token_char_props by blast
  moreover have "CHR ''_'' \<notin> set w" using ch(2) token_char_props by (auto simp: list_all_iff)
  then have "strip_underscores (CHR 0x00) w = Some w" by (simp add: strip_underscores_id)
  moreover have hb: "body \<noteq> [] \<and> (is_digit (hd body) \<or> hd body = CHR ''.'')"
  proof (cases ip)
    case Nil
    then show ?thesis using dt fd by (cases fd) (auto simp: body_def)
  next
    case (Cons c cs)
    then show ?thesis using ip by (simp add: body_def)
  qed
  have "\<exists>neg. split_sign w = (neg, body)"
  proof -
    obtain c cs where c: "body = c # cs" using hb by (cases body) auto
    then have "c \<noteq> CHR ''-''" "c \<noteq> CHR ''+''" using hb digit_not_sign [of c] by auto
    then have "split_sign body = (False, body)" using c by (simp add: split_sign_def)
    moreover have "split_sign (''-'' @ body) = (True, body)"
      "split_sign (''+'' @ body) = (False, body)" by (simp_all add: split_sign_def)
    ultimately show ?thesis using sg w by (auto simp: body_def)
  qed
  then obtain neg where neg: "split_sign w = (neg, body)" by blast
  have low: "map lower body \<noteq> ''inf''" "map lower body \<noteq> ''infinity''" "map lower body \<noteq> ''nan''"
  proof -
    obtain c cs where c: "body = c # cs" using hb by (cases body) auto
    then have "is_digit c \<or> c = CHR ''.''" using hb by simp
    then have "lower c \<noteq> CHR ''i'' \<and> lower c \<noteq> CHR ''n''"
      by (auto simp: is_digit_def lower_def)
    then show "map lower body \<noteq> ''inf''" "map lower body \<noteq> ''infinity''"
      "map lower body \<noteq> ''nan''" using c by auto
  qed
  from parse_decimal_token [OF ip dt fd ex] obtain q where
    q: "parse_decimal body = Some q" unfolding body_def by blast
  ultimately have "py_float w = Inr (round_to_double (if neg then - q else q))"
    using neg low q by (simp add: py_float_def)
  then show ?thesis by blast
qed

lemma round_to_double_not_NaN: "round_to_double q \<noteq> NaN"
  by (simp add: round_to_double_def Let_def)

section \<open>The first match is the leftmost, longest token\<close>

lemma rmatch_Seq: "rmatch (Seq a b) s = concat (map (rmatch b) (rmatch a s))"
  by simp

lemma rmatch_Opt: "rmatch (Opt a) s = rmatch a s @ [s]"
  by simp

lemma rmatch_Chars_Nil: "rmatch (Chars cs) [] = []"
  by simp

lemma rmatch_Chars_Cons: "rmatch (Chars cs) (c # s) = (if c \<in> set cs then [s] else [])"
  by simp

lemma rmatch_digit: "rmatch digit (c # s) = (if is_digit c then [s] else [])"
  by (simp add: digit_def is_digit_def)

lemma rmatch_digit_Nil: "rmatch digit [] = []"
  by (simp add: digit_def)

lemma rmatch_Star_digit_Nil: "rmatch (Star digit) [] = [[]]"
  by simp

lemma rmatch_Star_digit_Cons:
  "rmatch (Star digit) (c # s) =
     (if is_digit c then rmatch (Star digit) s @ [c # s] else [c # s])"
  by (simp add: rmatch_digit)

lemma rmatch_Plus_digit_Nil: "rmatch (Plus digit) [] = []"
  by (simp add: rmatch_digit_Nil)

lemma rmatch_Plus_digit_Cons:
  "rmatch (Plus digit) (c # s) = (if is_digit c then rmatch (Star digit) s else [])"
  by (simp add: rmatch_digit)

declare rmatch.simps [simp del]

lemma rmatch_length: "x \<in> set (rmatch r s) \<Longrightarrow> length x \<le> length s"
  using rmatch_memD [of x r s] by auto

lemma shortest_first_Nil: "shortest_first []"
  by (simp add: shortest_first_def)

lemma shortest_first_single: "shortest_first [x]"
  by (simp add: shortest_first_def)

lemma shortest_first_snoc:
  assumes "shortest_first L" "\<forall>x \<in> set L. length x \<le> length y"
  shows "shortest_first (L @ [y])"
proof (cases L)
  case Nil
  then show ?thesis by (simp add: shortest_first_def)
next
  case (Cons a as)
  then show ?thesis using assms by (auto simp: shortest_first_def)
qed

lemma rmatch_Star_digit_ne: "rmatch (Star digit) s \<noteq> []"
  by (cases s) (simp_all add: rmatch_Star_digit_Nil rmatch_Star_digit_Cons)

lemma shortest_first_Star_digit: "shortest_first (rmatch (Star digit) s)"
proof (induction s)
  case Nil
  show ?case by (simp only: rmatch_Star_digit_Nil shortest_first_single)
next
  case (Cons c s)
  show ?case
  proof (cases "is_digit c")
    case True
    have "\<forall>x \<in> set (rmatch (Star digit) s). length x \<le> length (c # s)"
      using rmatch_length [of _ "Star digit" s] by fastforce
    then show ?thesis
      using True Cons.IH by (simp only: rmatch_Star_digit_Cons if_True shortest_first_snoc)
  next
    case False
    then show ?thesis by (simp only: rmatch_Star_digit_Cons if_False shortest_first_single)
  qed
qed

lemma shortest_first_Plus_digit: "shortest_first (rmatch (Plus digit) s)"
proof (cases s)
  case Nil
  then show ?thesis by (simp only: rmatch_Plus_digit_Nil shortest_first_Nil)
next
  case (Cons c s')
  then show ?thesis
    using shortest_first_Star_digit [of s']
    by (simp add: rmatch_Plus_digit_Cons shortest_first_Nil)
qed

lemma rmatch_signed_digits:
  "rmatch (Seq (Opt (Chars ''-+'')) (Plus digit)) s = rmatch (Plus digit) (snd (split_sign s))"
proof (cases s)
  case Nil
  show ?thesis unfolding Nil
    by (simp add: rmatch_Seq rmatch_Opt rmatch_Chars_Nil rmatch_Plus_digit_Nil split_sign_def)
next
  case (Cons c s')
  show ?thesis
  proof (cases "c = CHR ''-'' \<or> c = CHR ''+''")
    case True
    then have "\<not> is_digit c" by (auto simp: is_digit_def)
    then have "rmatch (Plus digit) (c # s') = []" by (simp add: rmatch_Plus_digit_Cons)
    moreover have "rmatch (Opt (Chars ''-+'')) (c # s') = [s', c # s']"
      using True by (auto simp: rmatch_Opt rmatch_Chars_Cons)
    moreover have "snd (split_sign (c # s')) = s'" using True by (auto simp: split_sign_def)
    ultimately show ?thesis unfolding Cons by (simp add: rmatch_Seq)
  next
    case False
    then have "rmatch (Opt (Chars ''-+'')) (c # s') = [c # s']"
      by (simp add: rmatch_Opt rmatch_Chars_Cons)
    moreover have "snd (split_sign (c # s')) = c # s'" using False by (auto simp: split_sign_def)
    ultimately show ?thesis unfolding Cons by (simp add: rmatch_Seq)
  qed
qed

lemma rmatch_exponent_pat_Nil: "rmatch exponent_pat [] = []"
  by (simp add: rmatch_Seq [of "Chars ''eE''"] rmatch_Chars_Nil)

lemma rmatch_exponent_pat_Cons:
  "rmatch exponent_pat (e # s) =
     (if e = CHR ''e'' \<or> e = CHR ''E'' then rmatch (Plus digit) (snd (split_sign s)) else [])"
proof (cases "e = CHR ''e'' \<or> e = CHR ''E''")
  case True
  then have "rmatch (Chars ''eE'') (e # s) = [s]" by (auto simp: rmatch_Chars_Cons)
  then show ?thesis
    using True by (simp add: rmatch_Seq [of "Chars ''eE''"] rmatch_signed_digits)
next
  case False
  then have "rmatch (Chars ''eE'') (e # s) = []" by (auto simp: rmatch_Chars_Cons)
  then show ?thesis using False by (simp add: rmatch_Seq [of "Chars ''eE''"])
qed

lemma shortest_first_exponent_pat: "shortest_first (rmatch exponent_pat s)"
  by (cases s)
    (simp_all add: rmatch_exponent_pat_Nil rmatch_exponent_pat_Cons shortest_first_Nil
      shortest_first_Plus_digit)

lemma rmatch_exponent_pat_digit: "is_digit c \<Longrightarrow> rmatch exponent_pat (c # s) = []"
  by (auto simp: rmatch_exponent_pat_Cons is_digit_def)

lemma rmatch_exponent_pat_point: "rmatch exponent_pat (CHR ''.'' # s) = []"
  by (simp add: rmatch_exponent_pat_Cons)

lemma shortest_first_opt_exponent: "shortest_first (rmatch (Opt exponent_pat) s)"
proof -
  have "\<forall>x \<in> set (rmatch exponent_pat s). length x \<le> length s"
    using rmatch_length by blast
  then show ?thesis
    using shortest_first_exponent_pat [of s]
    by (simp only: rmatch_Opt [of exponent_pat] shortest_first_snoc)
qed

lemma rmatch_opt_exponent_digit: "is_digit c \<Longrightarrow> rmatch (Opt exponent_pat) (c # s) = [c # s]"
  by (simp add: rmatch_Opt [of exponent_pat] rmatch_exponent_pat_digit)

lemma rmatch_tail_pat_Nil: "rmatch tail_pat [] = []"
  by (simp add: rmatch_Seq [of "Plus digit"] rmatch_Plus_digit_Nil)

lemma rmatch_tail_pat_Cons:
  "rmatch tail_pat (c # s) =
     (if is_digit c then concat (map (rmatch (Opt exponent_pat)) (rmatch (Star digit) s)) else [])"
  by (simp add: rmatch_Seq [of "Plus digit"] rmatch_Plus_digit_Cons)

lemma rmatch_tail_pat_step:
  assumes "is_digit c"
  shows "rmatch tail_pat (c # s) =
     (case s of [] \<Rightarrow> rmatch (Opt exponent_pat) s
      | d # s' \<Rightarrow> if is_digit d then rmatch tail_pat s @ [s] else rmatch (Opt exponent_pat) s)"
proof (cases s)
  case Nil
  then show ?thesis using assms by (simp add: rmatch_tail_pat_Cons rmatch_Star_digit_Nil)
next
  case (Cons d s')
  show ?thesis
  proof (cases "is_digit d")
    case True
    then show ?thesis using assms Cons
      by (simp add: rmatch_tail_pat_Cons rmatch_Star_digit_Cons rmatch_opt_exponent_digit)
  next
    case False
    then show ?thesis using assms Cons
      by (simp add: rmatch_tail_pat_Cons rmatch_Star_digit_Cons)
  qed
qed

lemma shortest_first_tail_pat: "shortest_first (rmatch tail_pat s)"
proof (induction s)
  case Nil
  show ?case by (simp add: rmatch_tail_pat_Nil shortest_first_Nil)
next
  case (Cons c s)
  show ?case
  proof (cases "is_digit c")
    case False
    then show ?thesis by (simp add: rmatch_tail_pat_Cons shortest_first_Nil)
  next
    case True
    show ?thesis
    proof (cases "s \<noteq> [] \<and> is_digit (hd s)")
      case False
      then have "rmatch tail_pat (c # s) = rmatch (Opt exponent_pat) s"
        using rmatch_tail_pat_step [OF True, of s] by (cases s) auto
      then show ?thesis using shortest_first_opt_exponent [of s] by simp
    next
      case d: True
      then have e: "rmatch tail_pat (c # s) = rmatch tail_pat s @ [s]"
        using rmatch_tail_pat_step [OF True, of s] by (cases s) auto
      have "\<forall>x \<in> set (rmatch tail_pat s). length x \<le> length s"
        using rmatch_length by blast
      then show ?thesis unfolding e using Cons.IH by (rule shortest_first_snoc [rotated])
    qed
  qed
qed

lemma rmatch_tail_pat_nondigit: "s = [] \<or> \<not> is_digit (hd s) \<Longrightarrow> rmatch tail_pat s = []"
  by (cases s) (auto simp: rmatch_tail_pat_Nil rmatch_tail_pat_Cons)

lemma rmatch_fraction_pat:
  "rmatch fraction_pat s =
     (if s \<noteq> [] \<and> hd s = CHR ''.'' then rmatch tail_pat (tl s) else rmatch tail_pat s)"
proof (cases s)
  case Nil
  then show ?thesis
    by (simp add: rmatch_Seq [of "Opt (Chars ''.'')"] rmatch_Opt [of "Chars ''.''"] rmatch_Chars_Nil)
next
  case (Cons c s')
  show ?thesis
  proof (cases "c = CHR ''.''")
    case True
    then have "rmatch tail_pat (c # s') = []"
      using rmatch_tail_pat_nondigit [of "c # s'"] by (simp add: is_digit_def)
    then show ?thesis using True Cons
      by (simp add: rmatch_Seq [of "Opt (Chars ''.'')"] rmatch_Opt [of "Chars ''.''"]
          rmatch_Chars_Cons)
  next
    case False
    then show ?thesis using Cons
      by (simp add: rmatch_Seq [of "Opt (Chars ''.'')"] rmatch_Opt [of "Chars ''.''"]
          rmatch_Chars_Cons)
  qed
qed

lemma shortest_first_fraction_pat: "shortest_first (rmatch fraction_pat s)"
  by (simp add: rmatch_fraction_pat shortest_first_tail_pat)

lemma rmatch_mantissa_pat_Nil: "rmatch mantissa_pat [] = []"
  by (simp add: rmatch_Seq [of "Star digit"] rmatch_Star_digit_Nil rmatch_fraction_pat
      rmatch_tail_pat_Nil)

lemma rmatch_mantissa_pat_Cons:
  "rmatch mantissa_pat (c # s) =
     (if is_digit c then rmatch mantissa_pat s @ rmatch tail_pat (c # s)
      else rmatch fraction_pat (c # s))"
proof (cases "is_digit c")
  case True
  then have "c \<noteq> CHR ''.''" by (auto simp: is_digit_def)
  then have "rmatch fraction_pat (c # s) = rmatch tail_pat (c # s)"
    by (simp add: rmatch_fraction_pat)
  then show ?thesis using True
    by (simp add: rmatch_Seq [of "Star digit"] rmatch_Star_digit_Cons)
next
  case False
  then show ?thesis by (simp add: rmatch_Seq [of "Star digit"] rmatch_Star_digit_Cons)
qed

lemma shortest_first_append:
  assumes "L \<noteq> []" "shortest_first L" "\<forall>x \<in> set M. length (hd L) \<le> length x"
  shows "shortest_first (L @ M)"
  using assms by (auto simp: shortest_first_def)

lemma shortest_first_mantissa_pat: "shortest_first (rmatch mantissa_pat s)"
proof (induction s)
  case Nil
  show ?case by (simp add: rmatch_mantissa_pat_Nil shortest_first_Nil)
next
  case (Cons c s)
  show ?case
  proof (cases "is_digit c")
    case False
    then show ?thesis
      using shortest_first_fraction_pat [of "c # s"] by (simp add: rmatch_mantissa_pat_Cons)
  next
    case True
    then have e: "rmatch mantissa_pat (c # s) = rmatch mantissa_pat s @ rmatch tail_pat (c # s)"
      by (simp add: rmatch_mantissa_pat_Cons)
    show ?thesis
    proof (cases "rmatch mantissa_pat s = []")
      case True
      then show ?thesis unfolding e using shortest_first_tail_pat [of "c # s"] by simp
    next
      case ne: False
      have hd_le: "length (hd (rmatch mantissa_pat s)) \<le> length s"
        using ne rmatch_length [of "hd (rmatch mantissa_pat s)" mantissa_pat s] by simp
      have "\<forall>x \<in> set (rmatch tail_pat (c # s)). length (hd (rmatch mantissa_pat s)) \<le> length x"
      proof (cases s)
        case Nil
        then show ?thesis using ne by (simp add: rmatch_mantissa_pat_Nil)
      next
        case (Cons d s')
        show ?thesis
        proof (cases "is_digit d")
          case d: True
          then have t: "rmatch tail_pat (c # s) = rmatch tail_pat s @ [s]"
            using rmatch_tail_pat_step [OF True, of s] Cons by simp
          have "set (rmatch tail_pat s) \<subseteq> set (rmatch mantissa_pat s)"
            using d Cons by (simp add: rmatch_mantissa_pat_Cons)
          then show ?thesis
            unfolding t using Cons.IH hd_le by (auto simp: shortest_first_def)
        next
          case nd: False
          then have t: "rmatch tail_pat (c # s) = rmatch (Opt exponent_pat) s"
            using rmatch_tail_pat_step [OF True, of s] Cons by simp
          have m: "rmatch mantissa_pat s = rmatch fraction_pat s"
            using nd Cons by (simp add: rmatch_mantissa_pat_Cons)
          have "d = CHR ''.''"
          proof (rule ccontr)
            assume "d \<noteq> CHR ''.''"
            then have "rmatch fraction_pat s = rmatch tail_pat s"
              using Cons by (simp add: rmatch_fraction_pat)
            then show False
              using ne m nd Cons rmatch_tail_pat_nondigit [of s] by simp
          qed
          then have "rmatch (Opt exponent_pat) s = [s]"
            using Cons by (simp add: rmatch_Opt [of exponent_pat] rmatch_exponent_pat_point)
          then show ?thesis unfolding t using hd_le by simp
        qed
      qed
      then show ?thesis unfolding e using ne Cons.IH by (intro shortest_first_append) auto
    qed
  qed
qed

lemma rmatch_fitness_pattern:
  "rmatch fitness_pattern s = rmatch mantissa_pat (snd (split_sign s))"
proof (cases s)
  case Nil
  then show ?thesis
    by (simp add: fitness_pattern_def rmatch_Seq [of "Opt (Chars ''-+'')"]
        rmatch_Opt [of "Chars ''-+''"] rmatch_Chars_Nil split_sign_def)
next
  case (Cons c s')
  show ?thesis
  proof (cases "c = CHR ''-'' \<or> c = CHR ''+''")
    case True
    then have nd: "\<not> is_digit c" and np: "c \<noteq> CHR ''.''" by (auto simp: is_digit_def)
    have "rmatch mantissa_pat (c # s') = []"
      using nd np rmatch_tail_pat_nondigit [of "c # s'"]
      by (simp add: rmatch_mantissa_pat_Cons rmatch_fraction_pat)
    moreover have "rmatch (Opt (Chars ''-+'')) (c # s') = [s', c # s']"
      using True by (auto simp: rmatch_Opt [of "Chars ''-+''"] rmatch_Chars_Cons)
    moreover have "snd (split_sign (c # s')) = s'" using True by (auto simp: split_sign_def)
    ultimately show ?thesis
      using Cons by (simp add: fitness_pattern_def rmatch_Seq [of "Opt (Chars ''-+'')"])
  next
    case False
    then have "rmatch (Opt (Chars ''-+'')) (c # s') = [c # s']"
      by (simp add: rmatch_Opt [of "Chars ''-+''"] rmatch_Chars_Cons)
    moreover have "snd (split_sign (c # s')) = c # s'" using False by (auto simp: split_sign_def)
    ultimately show ?thesis
      using Cons by (simp add: fitness_pattern_def rmatch_Seq [of "Opt (Chars ''-+'')"])
  qed
qed

lemma shortest_first_fitness_pattern: "shortest_first (rmatch fitness_pattern s)"
  by (simp add: rmatch_fitness_pattern shortest_first_mantissa_pat)

lemma re_search_fitness_pattern:
  assumes "re_search fitness_pattern s = Some t"
  shows "\<exists>pre post. s = pre @ t @ post \<and> t \<in> lang fitness_pattern \<and>
           (\<forall>pre' w' post'. s = pre' @ w' @ post' \<and> w' \<in> lang fitness_pattern \<longrightarrow>
              length pre < length pre' \<or> (length pre = length pre' \<and> length w' \<le> length t))"
proof -
  from re_search_leftmost [OF assms] obtain pre post where
    p: "s = pre @ t @ post" "t \<in> lang fitness_pattern"
       "rmatch fitness_pattern (t @ post) \<noteq> []" "hd (rmatch fitness_pattern (t @ post)) = post"
       "\<forall>pre' w' post'. s = pre' @ w' @ post' \<and> w' \<in> lang fitness_pattern \<longrightarrow>
          length pre \<le> length pre'" by blast
  have "length pre < length pre' \<or> (length pre = length pre' \<and> length w' \<le> length t)"
    if a: "s = pre' @ w' @ post'" "w' \<in> lang fitness_pattern" for pre' w' post'
  proof (cases "length pre = length pre'")
    case False
    moreover have "length pre \<le> length pre'" using p(5) a by blast
    ultimately show ?thesis by simp
  next
    case True
    then have eq: "t @ post = w' @ post'" using p(1) a(1) by simp
    have "post' \<in> set (rmatch fitness_pattern (t @ post))"
      unfolding eq using a(2) by (rule rmatch_memI)
    then have "length post \<le> length post'"
      using shortest_first_fitness_pattern [of "t @ post"] p(4)
      by (auto simp: shortest_first_def)
    moreover have "length t + length post = length w' + length post'"
      using eq by (metis length_append)
    ultimately show ?thesis using True by simp
  qed
  then show ?thesis using p(1,2) by blast
qed

section \<open>Rounding: overflow gives an infinity\<close>

lemma ipow_powi: "ipow b k = b powi k"
  by (simp add: ipow_def power_int_def inverse_eq_divide power_one_over)

lemma floor_log2_bounds:
  assumes "0 < a"
  shows "ipow 2 (floor_log2 a) \<le> a" "a < ipow 2 (floor_log2 a + 1)"
proof -
  obtain n d where nd: "quotient_of a = (n, d)" by (cases "quotient_of a")
  then have d: "0 < d" and a: "a = of_int n / of_int d"
    using quotient_of_denom_pos [OF nd] quotient_of_div [OF nd] by simp_all
  have n: "0 < n" using assms a d by (simp add: zero_less_divide_iff)
  define k where "k = bitlen n - bitlen d"
  have bn: "2 ^ nat (bitlen n - 1) \<le> n" "n < 2 ^ nat (bitlen n)" using bitlen_bounds [OF n] by auto
  have bd: "2 ^ nat (bitlen d - 1) \<le> d" "d < 2 ^ nat (bitlen d)" using bitlen_bounds [OF d] by auto
  have pn: "1 \<le> bitlen n" "1 \<le> bitlen d" using n d by (auto simp: bitlen_alt_def)
  have rn: "(2::rat) powi (bitlen n - 1) \<le> of_int n" "of_int n < (2::rat) powi bitlen n"
  proof -
    have "(of_int (2 ^ nat (bitlen n - 1)) :: rat) \<le> of_int n" using bn(1) by (simp only: of_int_le_iff)
    then show "(2::rat) powi (bitlen n - 1) \<le> of_int n" using pn by (simp add: power_int_def)
    have "(of_int n :: rat) < of_int (2 ^ nat (bitlen n))" using bn(2) by (simp only: of_int_less_iff)
    then show "of_int n < (2::rat) powi bitlen n" using pn by (simp add: power_int_def)
  qed
  have rd: "(2::rat) powi (bitlen d - 1) \<le> of_int d" "of_int d < (2::rat) powi bitlen d"
  proof -
    have "(of_int (2 ^ nat (bitlen d - 1)) :: rat) \<le> of_int d" using bd(1) by (simp only: of_int_le_iff)
    then show "(2::rat) powi (bitlen d - 1) \<le> of_int d" using pn by (simp add: power_int_def)
    have "(of_int d :: rat) < of_int (2 ^ nat (bitlen d))" using bd(2) by (simp only: of_int_less_iff)
    then show "of_int d < (2::rat) powi bitlen d" using pn by (simp add: power_int_def)
  qed
  have dpos: "(0::rat) < of_int d" using d by simp
  have lo: "(2::rat) powi (k - 1) < a"
  proof -
    have "(2::rat) powi (k - 1) = 2 powi (bitlen n - 1) / 2 powi bitlen d"
      by (simp add: k_def power_int_diff [symmetric] algebra_simps)
    also have "\<dots> \<le> of_int n / 2 powi bitlen d"
      using rn(1) by (simp add: divide_right_mono)
    also have "\<dots> < of_int n / of_int d"
      using rd(2) dpos n by (simp add: divide_strict_left_mono)
    finally show ?thesis using a by simp
  qed
  have hi: "a < (2::rat) powi (k + 1)"
  proof -
    have "a = of_int n / of_int d" by (rule a)
    also have "\<dots> < 2 powi bitlen n / of_int d"
      using rn(2) dpos by (simp add: divide_strict_right_mono)
    also have "\<dots> \<le> 2 powi bitlen n / 2 powi (bitlen d - 1)"
    proof (intro divide_left_mono)
      show "(2::rat) powi (bitlen d - 1) \<le> of_int d" by (rule rd(1))
      show "(0::rat) \<le> 2 powi bitlen n" by simp
      have "(0::rat) < 2 powi (bitlen d - 1)" by simp
      then show "(0::rat) < of_int d * 2 powi (bitlen d - 1)" using dpos by (rule mult_pos_pos [rotated])
    qed
    also have "\<dots> = 2 powi (k + 1)"
      by (simp add: k_def power_int_diff [symmetric] algebra_simps)
    finally show ?thesis .
  qed
  have fl: "floor_log2 a = (if (2::rat) powi k \<le> a then k else k - 1)"
    by (simp add: floor_log2_def nd k_def ipow_powi Let_def)
  show "ipow 2 (floor_log2 a) \<le> a"
    using lo by (auto simp: fl ipow_powi)
  show "a < ipow 2 (floor_log2 a + 1)"
    using hi by (auto simp: fl ipow_powi)
qed

lemma round_half_even_ge:
  assumes "of_int m \<le> x"
  shows "m \<le> round_half_even x"
proof -
  have "m \<le> \<lfloor>x\<rfloor>" using assms by (simp add: le_floor_iff)
  then show ?thesis by (auto simp: round_half_even_def Let_def)
qed

lemma round_to_double_overflow:
  assumes "2 ^ 1024 \<le> \<bar>q\<bar>"
  shows "round_to_double q = (if q < 0 then NegInf else PosInf)"
proof -
  define a where "a = \<bar>q\<bar>"
  define e where "e = floor_log2 a"
  define p where "p = max e (- 1022) - 52"
  have "(0::rat) < 2 ^ 1024" by simp
  then have apos: "0 < a" using assms unfolding a_def by linarith
  have q0: "q \<noteq> 0" using apos a_def by auto
  have b: "(2::rat) powi e \<le> a" "a < (2::rat) powi (e + 1)"
    using floor_log2_bounds [OF apos] by (simp_all add: e_def ipow_powi)
  have "(2::rat) powi 1024 < 2 powi (e + 1)"
    using assms b(2) by (simp add: a_def)
  have e: "1024 \<le> e"
  proof (rule ccontr)
    assume "\<not> 1024 \<le> e"
    then have "e + 1 \<le> 1024" by simp
    then have "(2::rat) powi (e + 1) \<le> 2 powi 1024" by (intro power_int_increasing) simp_all
    then show False using \<open>(2::rat) powi 1024 < 2 powi (e + 1)\<close> by simp
  qed
  then have p: "p = e - 52" by (simp add: p_def)
  have "(2::rat) powi 52 = 2 powi e / 2 powi p"
    by (simp add: p power_int_diff [symmetric])
  also have "\<dots> \<le> a / 2 powi p" using b(1) by (simp add: divide_right_mono)
  finally have "of_int (2 ^ 52) \<le> a / (2::rat) powi p" by simp
  then have "2 ^ 52 \<le> round_half_even (a / 2 powi p)" by (rule round_half_even_ge)
  then have "(of_int (2 ^ 52) :: rat) \<le> of_int (round_half_even (a / 2 powi p))"
    by (simp only: of_int_le_iff)
  then have "(2::rat) powi 52 * 2 powi p \<le> of_int (round_half_even (a / 2 powi p)) * 2 powi p"
    by (intro mult_right_mono) simp_all
  moreover have "(2::rat) powi 52 * 2 powi p = 2 powi e"
  proof -
    have "(2::rat) powi 52 * 2 powi p = 2 powi (52 + p)" by (rule power_int_add [symmetric]) simp
    also have "52 + p = e" by (simp add: p)
    finally show ?thesis .
  qed
  moreover have "(2::rat) powi 1024 \<le> 2 powi e" using e by (intro power_int_increasing) simp_all
  ultimately have "(2::rat) powi 1024 \<le> of_int (round_half_even (a / 2 powi p)) * 2 powi p"
    by linarith
  then show ?thesis
    using q0 unfolding round_to_double_def
    by (simp add: Let_def ipow_powi a_def [symmetric] e_def [symmetric] p_def [symmetric])
qed

lemma round_to_double_cases:
  "round_to_double q = PosInf \<or> round_to_double q = NegInf \<or> (\<exists>r. round_to_double q = Finite r)"
  by (simp add: round_to_double_def Let_def)

section \<open>What one call of \<open>objective\<close> does\<close>

lemma draws:
  "(let (swarmSize, t1) = suggest_int t ''swarmSize'' 10 100;
        (maxIters, t2) = suggest_int t1 ''maxIters'' 50 1000;
        (inertias, t3) = suggest_float t2 ''inertias''
                           (round_to_double (1 / 10)) (round_to_double 1);
        (c1s, t4) = suggest_float t3 ''c1s'' (round_to_double (1 / 10)) (round_to_double 3);
        (c2s, t5) = suggest_float t4 ''c2s'' (round_to_double (1 / 10)) (round_to_double 3)
    in F swarmSize maxIters inertias c1s c2s t5) =
   F (sample_int t ''swarmSize'' 10 100) (sample_int t ''maxIters'' 50 1000)
     (sample_float t ''inertias'' (round_to_double (1 / 10)) (round_to_double 1))
     (sample_float t ''c1s'' (round_to_double (1 / 10)) (round_to_double 3))
     (sample_float t ''c2s'' (round_to_double (1 / 10)) (round_to_double 3))
     (suggested t)"
  by (simp add: suggest_int_def suggest_float_def Let_def suggested_def)

lemma objective_alt:
  "objective e t =
     (case subprocess_run e (trial_cmd e t) of
        Inl ex \<Rightarrow>
          if ex = TimeoutExpired
          then \<lparr>returned = Inr PosInf,
                logged = [(WARNING, ''Subprocess timed out for params: %s'',
                           [ArgParams (params (suggested t))])],
                launched = [trial_cmd e t], trial_after = suggested t\<rparr>
          else if ex = FileNotFoundError
          then \<lparr>returned = Inr PosInf,
                logged = [(ERROR, ''Failed to run subprocess: %s'', [ArgExn ex])],
                launched = [trial_cmd e t], trial_after = suggested t\<rparr>
          else \<lparr>returned = Inl ex, logged = [], launched = [trial_cmd e t],
                trial_after = suggested t\<rparr>
      | Inr result \<Rightarrow>
          \<lparr>returned = fst (parse_fitness (params (suggested t))
                              (stdout result @ ''\<newline>'' @ stderr result)),
           logged = (if returncode result \<noteq> 0
                     then [(WARNING, ''Jar exited with code %s. stderr: %s'',
                            [ArgInt (returncode result), ArgStr (strip (stderr result))])]
                     else []) @
                    snd (parse_fitness (params (suggested t))
                           (stdout result @ ''\<newline>'' @ stderr result)),
           launched = [trial_cmd e t], trial_after = suggested t\<rparr>)"
  unfolding objective_def
  apply (subst draws)
  apply (fold trial_cmd_def)
  apply (cases "subprocess_run e (trial_cmd e t)")
   apply (simp_all add: Let_def case_prod_beta)
  done

lemma objective_launched: "launched (objective e t) = [trial_cmd e t]"
  by (simp add: objective_alt split: sum.splits)

lemma objective_trial_after: "trial_after (objective e t) = suggested t"
  by (simp add: objective_alt split: sum.splits)

lemma objective_returned:
  "returned (objective e t) =
     (case subprocess_run e (trial_cmd e t) of
        Inl ex \<Rightarrow> if ex = TimeoutExpired \<or> ex = FileNotFoundError then Inr PosInf else Inl ex
      | Inr p \<Rightarrow> fst (parse_fitness (params (suggested t)) (stdout p @ ''\<newline>'' @ stderr p)))"
  by (simp add: objective_alt split: sum.splits)

lemma objective_logged:
  "logged (objective e t) =
     (case subprocess_run e (trial_cmd e t) of
        Inl ex \<Rightarrow>
          if ex = TimeoutExpired
          then [(WARNING, ''Subprocess timed out for params: %s'', [ArgParams (params (suggested t))])]
          else if ex = FileNotFoundError
          then [(ERROR, ''Failed to run subprocess: %s'', [ArgExn ex])]
          else []
      | Inr p \<Rightarrow>
          (if returncode p \<noteq> 0
           then [(WARNING, ''Jar exited with code %s. stderr: %s'',
                  [ArgInt (returncode p), ArgStr (strip (stderr p))])]
           else []) @
          snd (parse_fitness (params (suggested t)) (stdout p @ ''\<newline>'' @ stderr p)))"
  by (simp add: objective_alt split: sum.splits)

lemma contains_match_iff: "contains_match r s \<longleftrightarrow> re_search r s \<noteq> None"
  by (simp add: re_search_None_iff)

lemma parse_fitness_value:
  "fst (parse_fitness ps raw) =
     (if lines raw = [] then Inr PosInf
      else case re_search fitness_pattern (last (lines raw)) of
             None \<Rightarrow> Inr PosInf
           | Some tok \<Rightarrow> py_float tok)"
proof (cases "lines raw = []")
  case True
  then show ?thesis by (simp add: parse_fitness_def)
next
  case False
  show ?thesis
  proof (cases "re_search fitness_pattern (last (lines raw))")
    case None
    then show ?thesis using False by (simp add: parse_fitness_def)
  next
    case (Some tok)
    from re_search_leftmost [OF Some] have "tok \<in> lang fitness_pattern" by blast
    from py_float_token [OF this] obtain q where "py_float tok = Inr (round_to_double q)" by blast
    then show ?thesis using False Some by (simp add: parse_fitness_def)
  qed
qed

lemma parse_fitness_cases:
  "fst (parse_fitness ps raw) = Inr PosInf \<or> (\<exists>q. fst (parse_fitness ps raw) = Inr (round_to_double q))"
proof (cases "lines raw \<noteq> [] \<and> re_search fitness_pattern (last (lines raw)) \<noteq> None")
  case False
  then show ?thesis by (auto simp: parse_fitness_value)
next
  case True
  then obtain tok where tok: "re_search fitness_pattern (last (lines raw)) = Some tok" by auto
  from re_search_leftmost [OF tok] have "tok \<in> lang fitness_pattern" by blast
  from py_float_token [OF this] obtain q where "py_float tok = Inr (round_to_double q)" by blast
  then have "fst (parse_fitness ps raw) = Inr (round_to_double q)"
    using True tok by (simp add: parse_fitness_value)
  then show ?thesis by blast
qed

lemma round_to_double_Finite:
  assumes "round_to_double q = Finite r"
  shows "\<bar>r\<bar> < 2 ^ 1024"
proof (cases "q = 0")
  case True
  then show ?thesis using assms by (simp add: round_to_double_def)
next
  case False
  define v where "v = rat_of_int (round_half_even (\<bar>q\<bar> / ipow 2 (max (floor_log2 \<bar>q\<bar>) (- 1022) - 52))) *
      ipow 2 (max (floor_log2 \<bar>q\<bar>) (- 1022) - 52)"
  have "0 \<le> \<bar>q\<bar> / ipow 2 (max (floor_log2 \<bar>q\<bar>) (- 1022) - 52)"
    by (simp add: ipow_powi)
  then have "0 \<le> round_half_even (\<bar>q\<bar> / ipow 2 (max (floor_log2 \<bar>q\<bar>) (- 1022) - 52))"
    using round_half_even_ge [of 0] by simp
  then have v0: "0 \<le> v" by (simp add: v_def ipow_powi)
  have "\<not> ipow 2 1024 \<le> v \<and> r = (if q < 0 then - v else v)"
    using assms False unfolding round_to_double_def Let_def v_def [symmetric]
    by (auto split: if_splits)
  then show ?thesis using v0 by (auto simp: ipow_powi)
qed

lemma parse_fitness_token:
  assumes "lines raw \<noteq> []" "re_search fitness_pattern (last (lines raw)) = Some tok"
    "py_float tok = Inr x"
  shows "parse_fitness ps raw = (Inr x, [])"
  using assms by (simp add: parse_fitness_def del: re_search.simps)

lemma fitness_12_345:
  "parse_fitness ps ''Fitness: 12.345\<newline>'' = (Inr (round_to_double (2469 / 200)), [])"
proof (rule parse_fitness_token)
  have l: "lines ''Fitness: 12.345\<newline>'' = [''Fitness: 12.345'']" by code_simp
  show "lines ''Fitness: 12.345\<newline>'' \<noteq> []" by (simp add: l)
  have ll: "last (lines ''Fitness: 12.345\<newline>'') = ''Fitness: 12.345''" by (simp add: l)
  show "re_search fitness_pattern (last (lines ''Fitness: 12.345\<newline>'')) = Some ''12.345''"
    unfolding ll by code_simp
  show "py_float ''12.345'' = Inr (round_to_double (2469 / 200))"
    by (simp add: py_float_def float_strip_def is_float_space_def is_digit_def split_sign_def lower_def
        parse_decimal_def parse_exponent_def digits_value_def digit_value_def ipow_def)
qed

lemma fitness_overflow:
  "parse_fitness ps ''-1e309\<newline>'' = (Inr NegInf, [])"
proof (rule parse_fitness_token)
  have l: "lines ''-1e309\<newline>'' = [''-1e309'']" by code_simp
  show "lines ''-1e309\<newline>'' \<noteq> []" by (simp add: l)
  have ll: "last (lines ''-1e309\<newline>'') = ''-1e309''" by (simp add: l)
  show "re_search fitness_pattern (last (lines ''-1e309\<newline>'')) = Some ''-1e309''"
    unfolding ll by code_simp
  have "py_float ''-1e309'' = Inr (round_to_double (- (10 ^ 309)))"
    by (simp add: py_float_def float_strip_def is_float_space_def is_digit_def split_sign_def lower_def
        parse_decimal_def parse_exponent_def digits_value_def digit_value_def ipow_def)
  moreover have "round_to_double (- (10 ^ 309)) = NegInf"
    using round_to_double_overflow [of "- (10 ^ 309)"] by simp
  ultimately show "py_float ''-1e309'' = Inr NegInf" by simp
qed

section \<open>Decimal text of integers; concrete runs\<close>

lemma digit_char: "k < 10 \<Longrightarrow> is_digit (char_of (48 + k)) \<and> digit_value (char_of (48 + k)) = k"
proof -
  assume "k < 10"
  then have "k = 0 \<or> k = 1 \<or> k = 2 \<or> k = 3 \<or> k = 4 \<or> k = 5 \<or> k = 6 \<or> k = 7 \<or> k = 8 \<or> k = 9"
    by arith
  moreover have "char_of (48::nat) = CHR ''0''" "char_of (49::nat) = CHR ''1''"
    "char_of (50::nat) = CHR ''2''" "char_of (51::nat) = CHR ''3''" "char_of (52::nat) = CHR ''4''"
    "char_of (53::nat) = CHR ''5''" "char_of (54::nat) = CHR ''6''" "char_of (55::nat) = CHR ''7''"
    "char_of (56::nat) = CHR ''8''" "char_of (57::nat) = CHR ''9''"
    by code_simp+
  ultimately show ?thesis by (auto simp: is_digit_def digit_value_def)
qed

lemma digits_value_snoc: "digits_value (ds @ [c]) = 10 * digits_value ds + digit_value c"
  by (simp add: digits_value_def)

lemma str_nat_decimal:
  "str_nat n \<noteq> [] \<and> list_all is_digit (str_nat n) \<and> digits_value (str_nat n) = n"
proof (induction n rule: str_nat.induct)
  case (1 n)
  show ?case
  proof (cases "n < 10")
    case True
    then show ?thesis
      using digit_char [of n] by (simp add: str_nat.simps [of n] digits_value_def)
  next
    case False
    have m: "n mod 10 < 10" by simp
    show ?thesis
      using False "1.IH" digit_char [OF m]
      by (simp add: str_nat.simps [of n] digits_value_snoc)
  qed
qed

lemma str_int_decimal:
  "\<exists>ds. str_int i = (if i < 0 then ''-'' else []) @ ds \<and> ds \<noteq> [] \<and> list_all is_digit ds \<and>
         int (digits_value ds) = \<bar>i\<bar>"
proof (cases "i < 0")
  case True
  then show ?thesis using str_nat_decimal [of "nat (- i)"] by (simp add: str_int_def)
next
  case False
  then show ?thesis using str_nat_decimal [of "nat i"] by (simp add: str_int_def)
qed

lemma suggested_params_dom:
  "dom (params (suggested t)) =
     dom (params t) \<union> {''swarmSize'', ''maxIters'', ''inertias'', ''c1s'', ''c2s''}"
  by (auto simp: suggested_def)

lemma example_env_run [simp]: "subprocess_run (example_env r) c = r"
  by (simp add: example_env_def)

lemma example_env_JAR [simp]:
  "JAR_PATH (example_env r) = ''/opt/pso/thermoforming_optimization-1.0.jar''"
  by (simp add: example_env_def)

lemma example_env_str_float [simp]: "str_float (example_env r) x = ''0.1''"
  by (simp add: example_env_def)

lemma launchedD: "c \<in> set (launched (objective e t)) \<Longrightarrow> c = trial_cmd e t"
  by (simp add: objective_launched)

lemma py_float_nan: "py_float ''nan'' = Inr NaN"
  by (simp add: py_float_def float_strip_def is_float_space_def is_digit_def split_sign_def lower_def)

lemma lower_token_char: "token_char c \<Longrightarrow> lower c \<noteq> CHR ''n''"
proof -
  have "\<forall>c \<in> set ''+-.eE0123456789''. lower c \<noteq> CHR ''n''" by code_simp
  then show "token_char c \<Longrightarrow> lower c \<noteq> CHR ''n''" unfolding token_char_def by blast
qed

section \<open>The last non-empty line is the last of \<open>lines\<close>\<close>

lemma lines_Nil: "lines [] = []"
  by (simp add: lines_def splitlines.simps [of "[]"])

lemma strip_Nil: "strip [] = []"
  by (simp add: strip_def)

lemma strip_blank: "list_all is_space s \<Longrightarrow> strip s = []"
proof -
  assume "list_all is_space s"
  then have d: "dropWhile is_space s = []" by (auto simp: list_all_iff dropWhile_eq_Nil_conv)
  show ?thesis by (simp add: strip_def d)
qed

lemma splitlines_nobreak:
  assumes "s \<noteq> []" "list_all (\<lambda>c. \<not> is_linebreak c) s"
  shows "splitlines s = [s]"
proof -
  have d: "dropWhile (\<lambda>c. \<not> is_linebreak c) s = []"
    using assms(2) by (auto simp: list_all_iff dropWhile_eq_Nil_conv)
  show ?thesis by (subst splitlines.simps) (simp add: d assms(1))
qed

lemma splitlines_break:
  assumes "list_all (\<lambda>c. \<not> is_linebreak c) x" "is_linebreak b"
  shows "splitlines (x @ b # y) =
           x # splitlines (if b = CHR 0x0D \<and> y \<noteq> [] \<and> hd y = CHR 0x0A then tl y else y)"
proof -
  have a: "\<forall>c \<in> set x. \<not> is_linebreak c" using assms(1) by (simp add: list_all_iff)
  have t: "takeWhile (\<lambda>c. \<not> is_linebreak c) (x @ b # y) = x"
    using a assms(2) by (simp add: takeWhile_append2)
  have d: "dropWhile (\<lambda>c. \<not> is_linebreak c) (x @ b # y) = b # y"
    using a assms(2) by (simp add: dropWhile_append2)
  show ?thesis
    by (subst splitlines.simps) (simp only: t d, simp)
qed

lemma lines_nobreak:
  assumes "list_all (\<lambda>c. \<not> is_linebreak c) x"
  shows "lines x = (if strip x = [] then [] else [strip x])"
proof (cases "x = []")
  case True
  then show ?thesis by (simp add: lines_Nil strip_Nil)
next
  case False
  then show ?thesis using splitlines_nobreak [OF False assms] by (simp add: lines_def)
qed

lemma lines_break_step:
  assumes "list_all (\<lambda>c. \<not> is_linebreak c) x" "is_linebreak b"
  shows "lines (x @ b # y) =
           lines x @ lines (if b = CHR 0x0D \<and> y \<noteq> [] \<and> hd y = CHR 0x0A then tl y else y)"
  using lines_nobreak [OF assms(1)] splitlines_break [OF assms]
  by (simp add: lines_def)

lemma lines_LF: "lines (CHR 0x0A # y) = lines y"
proof -
  have "is_linebreak (CHR 0x0A)" by (simp add: is_linebreak_def)
  from lines_break_step [of "[]", OF _ this] show ?thesis by (simp add: lines_Nil)
qed

lemma lines_Cons_break:
  assumes "is_linebreak b"
  shows "lines (b # y) = lines y"
proof (cases "b = CHR 0x0D \<and> y \<noteq> [] \<and> hd y = CHR 0x0A")
  case False
  then show ?thesis using lines_break_step [of "[]" b y, OF _ assms] by (auto simp: lines_Nil)
next
  case True
  then obtain y' where y: "y = CHR 0x0A # y'" by (cases y) auto
  have "lines (b # y) = lines y'"
    using lines_break_step [of "[]" b y, OF _ assms] True y by (simp add: lines_Nil)
  then show ?thesis by (simp add: y lines_LF)
qed

lemma lines_nobreak_break:
  assumes "list_all (\<lambda>c. \<not> is_linebreak c) x" "is_linebreak b"
  shows "lines (x @ b # y) = lines x @ lines y"
proof (cases "b = CHR 0x0D \<and> y \<noteq> [] \<and> hd y = CHR 0x0A")
  case False
  then show ?thesis using lines_break_step [OF assms, of y] by auto
next
  case True
  then obtain y' where y: "y = CHR 0x0A # y'" by (cases y) auto
  have "lines (x @ b # y) = lines x @ lines y'"
    using lines_break_step [OF assms, of y] True y by simp
  then show ?thesis by (simp add: y lines_LF)
qed

lemma lines_append_break:
  assumes "is_linebreak b"
  shows "lines (x @ b # y) = lines x @ lines y"
proof (induction "length x" arbitrary: x rule: less_induct)
  case less
  show ?case
  proof (cases "\<exists>c \<in> set x. is_linebreak c")
    case False
    then have "list_all (\<lambda>c. \<not> is_linebreak c) x" by (simp add: list_all_iff)
    then show ?thesis using assms by (rule lines_nobreak_break)
  next
    case True
    from split_list_first_prop [OF True] obtain x1 c x2 where
      x: "x = x1 @ c # x2" "is_linebreak c" "\<forall>d \<in> set x1. \<not> is_linebreak d" by blast
    have n: "list_all (\<lambda>c. \<not> is_linebreak c) x1" using x(3) by (simp add: list_all_iff)
    have "length x2 < length x" using x(1) by simp
    then have ih: "lines (x2 @ b # y) = lines x2 @ lines y" by (rule less)
    have "lines (x @ b # y) = lines (x1 @ c # (x2 @ b # y))" using x(1) by simp
    also have "\<dots> = lines x1 @ lines (x2 @ b # y)" using n x(2) by (rule lines_nobreak_break)
    also have "\<dots> = (lines x1 @ lines x2) @ lines y" using ih by simp
    also have "lines x1 @ lines x2 = lines x"
      unfolding x(1) using n x(2) by (rule lines_nobreak_break [symmetric])
    finally show ?thesis .
  qed
qed

lemma lines_blank:
  assumes "list_all is_space s"
  shows "lines s = []"
  using assms
proof (induction "length s" arbitrary: s rule: less_induct)
  case less
  show ?case
  proof (cases "\<exists>c \<in> set s. is_linebreak c")
    case False
    then have "list_all (\<lambda>c. \<not> is_linebreak c) s" by (simp add: list_all_iff)
    then show ?thesis using strip_blank [OF less.prems] by (simp add: lines_nobreak)
  next
    case True
    from split_list_first_prop [OF True] obtain x1 c x2 where
      x: "s = x1 @ c # x2" "is_linebreak c" by blast
    have "list_all is_space x1" "list_all is_space x2" using less.prems x(1) by simp_all
    moreover have "length x1 < length s" "length x2 < length s" using x(1) by simp_all
    ultimately have "lines x1 = []" "lines x2 = []" using less.hyps by blast+
    then show ?thesis unfolding x(1) using lines_append_break [OF x(2)] by simp
  qed
qed

lemma strip_core:
  assumes "list_all is_space i" "list_all is_space t" "l \<noteq> []" "\<not> is_space (hd l)"
    "\<not> is_space (last l)"
  shows "strip (i @ l @ t) = l"
proof -
  have i: "\<forall>c \<in> set i. is_space c" and t: "\<forall>c \<in> set (rev t). is_space c"
    using assms(1,2) by (simp_all add: list_all_iff)
  have 1: "dropWhile is_space (l @ t) = l @ t" using assms(3,4) by (cases l) auto
  have "dropWhile is_space (i @ l @ t) = l @ t" using i 1 by (simp add: dropWhile_append2)
  moreover have "dropWhile is_space (rev l) = rev l"
    using assms(3,5) by (cases "rev l") (auto simp: hd_rev)
  moreover have "dropWhile is_space (rev t @ rev l) = dropWhile is_space (rev l)"
    by (rule dropWhile_append2) (use t in auto)
  ultimately show ?thesis by (simp add: strip_def)
qed

lemma lines_core:
  assumes "list_all is_space ind" "list_all is_space suf" "l \<noteq> []" "\<not> is_space (hd l)"
    "\<not> is_space (last l)" "list_all (\<lambda>c. \<not> is_linebreak c) l"
  shows "lines (ind @ l @ suf) = [l]"
proof -
  have nb: "lines (i @ l @ suf) = [l]"
    if i: "list_all is_space i" "list_all (\<lambda>c. \<not> is_linebreak c) i" for i
  proof (cases "\<exists>c \<in> set suf. is_linebreak c")
    case False
    then have "list_all (\<lambda>c. \<not> is_linebreak c) (i @ l @ suf)"
      using i(2) assms(6) by (auto simp: list_all_iff)
    then show ?thesis
      using strip_core [OF i(1) assms(2,3,4,5)] assms(3) by (simp add: lines_nobreak)
  next
    case True
    from split_list_first_prop [OF True] obtain s1 b s2 where
      s: "suf = s1 @ b # s2" "is_linebreak b" "\<forall>d \<in> set s1. \<not> is_linebreak d" by blast
    have s1: "list_all is_space s1" and s2: "list_all is_space s2" using assms(2) s(1) by simp_all
    have n: "list_all (\<lambda>c. \<not> is_linebreak c) (i @ l @ s1)"
      using i(2) assms(6) s(3) by (auto simp: list_all_iff)
    have "lines (i @ l @ suf) = lines ((i @ l @ s1) @ b # s2)" using s(1) by simp
    also have "\<dots> = lines (i @ l @ s1) @ lines s2" using s(2) by (rule lines_append_break)
    also have "lines s2 = []" using s2 by (rule lines_blank)
    also have "lines (i @ l @ s1) = [l]"
      using strip_core [OF i(1) s1 assms(3,4,5)] assms(3) n by (simp add: lines_nobreak)
    finally show ?thesis by simp
  qed
  show ?thesis
  proof (cases "\<exists>c \<in> set ind. is_linebreak c")
    case False
    then have "list_all (\<lambda>c. \<not> is_linebreak c) ind" by (simp add: list_all_iff)
    with assms(1) show ?thesis by (rule nb)
  next
    case True
    from split_list_last_prop [OF True] obtain i1 b i2 where
      i: "ind = i1 @ b # i2" "is_linebreak b" "\<forall>d \<in> set i2. \<not> is_linebreak d" by blast
    have i1: "list_all is_space i1" and i2: "list_all is_space i2" using assms(1) i(1) by simp_all
    have n: "list_all (\<lambda>c. \<not> is_linebreak c) i2" using i(3) by (simp add: list_all_iff)
    have "lines (ind @ l @ suf) = lines (i1 @ b # (i2 @ l @ suf))" using i(1) by simp
    also have "\<dots> = lines i1 @ lines (i2 @ l @ suf)" using i(2) by (rule lines_append_break)
    also have "lines i1 = []" using i1 by (rule lines_blank)
    also have "lines (i2 @ l @ suf) = [l]" using i2 n by (rule nb)
    finally show ?thesis by simp
  qed
qed

lemma lines_last_nonempty_line:
  assumes "last_nonempty_line raw l"
  shows "lines raw \<noteq> []" "last (lines raw) = l"
proof -
  from assms obtain pre ind suf where
    r: "raw = pre @ ind @ l @ suf" "pre = [] \<or> is_linebreak (last pre)" "list_all is_space ind"
       "l \<noteq> []" "\<not> is_space (hd l)" "\<not> is_space (last l)"
       "list_all (\<lambda>c. \<not> is_linebreak c) l" "list_all is_space suf"
    unfolding last_nonempty_line_def by blast
  have c: "lines (ind @ l @ suf) = [l]" using r(3,8,4,5,6,7) by (rule lines_core)
  have "\<exists>xs. lines raw = xs @ [l]"
  proof (cases "pre = []")
    case True
    then show ?thesis using r(1) c by simp
  next
    case False
    then obtain p b where p: "pre = p @ [b]" by (cases pre rule: rev_cases) auto
    then have "is_linebreak b" using r(2) by simp
    from lines_append_break [OF this, of p "ind @ l @ suf"] have
      "lines raw = lines p @ [l]" using r(1) p c by simp
    then show ?thesis by blast
  qed
  then obtain xs where "lines raw = xs @ [l]" by blast
  then show "lines raw \<noteq> []" "last (lines raw) = l" by simp_all
qed

section \<open>Tokens: the pattern's language, the first match, and the value of \<open>float()\<close>\<close>

lemma digit_value_digit_of: "is_digit c \<Longrightarrow> digit_value c = digit_of c"
proof -
  have "\<forall>c \<in> set ''0123456789''. digit_value c = digit_of c"
    by (simp add: digit_value_def digit_of_def)
  then show "is_digit c \<Longrightarrow> digit_value c = digit_of c"
    unfolding is_digit_def by blast
qed

lemma dec_snoc: "dec (ds @ [c]) = 10 * dec ds + digit_of c"
  by (induction ds) (simp_all add: algebra_simps)

lemma digits_value_dec: "list_all is_digit ds \<Longrightarrow> digits_value ds = dec ds"
proof (induction ds rule: rev_induct)
  case Nil
  show ?case by (simp add: digits_value_def)
next
  case (snoc c ds)
  then show ?case by (simp add: digits_value_snoc dec_snoc digit_value_digit_of)
qed

lemma parse_exponent_value:
  assumes "exponent_denotes ex k"
  shows "parse_exponent ex = Some k"
proof (cases "ex = []")
  case True
  then show ?thesis using assms by (auto simp: exponent_denotes_def parse_exponent_def)
next
  case False
  with assms obtain c es ed where e: "ex = c # es @ ed" "c = CHR ''e'' \<or> c = CHR ''E''"
    "ed \<noteq> []" "list_all is_digit ed"
    "(es = [] \<or> es = ''+'') \<and> k = int (dec ed) \<or> es = ''-'' \<and> k = - int (dec ed)"
    unfolding exponent_denotes_def by blast
  have s: "split_sign (es @ ed) = (es = ''-'', ed)"
    using e(5) split_sign_digits [OF e(3,4)] by auto
  have "parse_exponent (c # es @ ed) =
      Some (if es = ''-'' then - int (digits_value ed) else int (digits_value ed))"
    using e(2,3,4) s by (auto simp: parse_exponent_def)
  then show ?thesis using e(1,4,5) by (auto simp: digits_value_dec)
qed

lemma exponent_denotes_hd:
  assumes "exponent_denotes ex k"
  shows "ex = [] \<or> (\<not> is_digit (hd ex) \<and> hd ex \<noteq> CHR ''.'')"
proof (cases "ex = []")
  case True
  then show ?thesis by simp
next
  case False
  with assms obtain c es ed where "ex = c # es @ ed" "c = CHR ''e'' \<or> c = CHR ''E''"
    unfolding exponent_denotes_def by blast
  then have "hd ex = CHR ''e'' \<or> hd ex = CHR ''E''" by simp
  then show ?thesis by (auto simp: is_digit_def)
qed

lemma parse_decimal_value:
  assumes ip: "list_all is_digit ip" and dt: "dt = [] \<or> dt = ''.''"
    and fd: "fd \<noteq> []" "list_all is_digit fd" and ex: "exponent_denotes ex k"
  shows "parse_decimal (ip @ dt @ fd @ ex) =
           Some (of_nat (dec (ip @ fd)) * 10 powi (k - (if dt = [] then 0 else int (length fd))))"
proof -
  have exd: "ex = [] \<or> \<not> is_digit (hd ex)" and exp: "ex = [] \<or> hd ex \<noteq> CHR ''.''"
    using exponent_denotes_hd [OF ex] by blast+
  have k: "parse_exponent ex = Some k" using ex by (rule parse_exponent_value)
  have all: "list_all is_digit (ip @ fd)" using ip fd(2) by simp
  have dv: "digits_value (ip @ fd) = dec (ip @ fd)" using all by (rule digits_value_dec)
  from dt show ?thesis
  proof
    assume d0: "dt = []"
    have t: "takeWhile is_digit ((ip @ fd) @ ex) = ip @ fd"
      and d: "dropWhile is_digit ((ip @ fd) @ ex) = ex"
      using span_digits [OF all exd] by blast+
    have ne: "ip @ fd \<noteq> []" using fd(1) by simp
    have "parse_decimal ((ip @ fd) @ ex) = Some (of_nat (dec (ip @ fd)) * 10 powi k)"
    proof (cases ex)
      case Nil
      show ?thesis
        apply (simp only: parse_decimal_def t d)
        using ne k Nil dv by (simp add: ipow_powi)
    next
      case (Cons c cs)
      then have c: "c \<noteq> CHR ''.''" using exp by simp
      show ?thesis
        apply (simp only: parse_decimal_def t d)
        using ne k Cons c dv by (simp add: ipow_powi)
    qed
    then show ?thesis using d0 by simp
  next
    assume d1: "dt = ''.''"
    have t: "takeWhile is_digit (ip @ (CHR ''.'' # fd @ ex)) = ip"
      and d: "dropWhile is_digit (ip @ (CHR ''.'' # fd @ ex)) = CHR ''.'' # fd @ ex"
      using span_digits [OF ip, of "CHR ''.'' # fd @ ex"] by (simp_all add: is_digit_def)
    have t2: "takeWhile is_digit (fd @ ex) = fd" and d2: "dropWhile is_digit (fd @ ex) = ex"
      using span_digits [OF fd(2) exd] by blast+
    have "parse_decimal (ip @ (CHR ''.'' # fd @ ex)) =
        Some (of_nat (dec (ip @ fd)) * 10 powi (k - int (length fd)))"
      apply (simp only: parse_decimal_def t d)
      apply (simp only: Let_def list.case if_True t2 d2 prod.case)
      using fd(1) k dv by (simp add: ipow_powi)
    then show ?thesis using d1 by simp
  qed
qed

lemma lang_SeqI: "u \<in> lang a \<Longrightarrow> v \<in> lang b \<Longrightarrow> u @ v \<in> lang (Seq a b)"
  by auto

lemma is_token_lang:
  assumes "is_token tok"
  shows "tok \<in> lang fitness_pattern"
proof -
  from assms obtain sg ip dt fd ex k where
    d: "tok = sg @ ip @ dt @ fd @ ex" and sg: "sg = [] \<or> sg = ''+'' \<or> sg = ''-''"
    and ip: "list_all is_digit ip" and dt: "dt = [] \<or> dt = ''.''"
    and fd: "fd \<noteq> []" "list_all is_digit fd" and ex: "exponent_denotes ex k"
    unfolding is_token_def token_denotes_def by blast
  have 1: "sg \<in> lang (Opt (Chars ''-+''))" using sg by (auto simp only: lang_sign)
  have 2: "ip \<in> lang (Star digit)" using ip by (simp only: lang_Star_digit) simp
  have 3: "dt \<in> lang (Opt (Chars ''.''))" using dt by (simp only: lang_point)
  have 4: "fd \<in> lang (Plus digit)" using fd by (simp only: lang_Plus_digit) simp
  have 5: "ex \<in> lang (Opt exponent_pat)"
  proof (cases "ex = []")
    case True
    then show ?thesis by simp
  next
    case False
    with ex obtain c es ed where e: "ex = c # es @ ed" "c = CHR ''e'' \<or> c = CHR ''E''"
      "ed \<noteq> []" "list_all is_digit ed" "es = [] \<or> es = ''+'' \<or> es = ''-''"
      unfolding exponent_denotes_def by blast
    have a: "[c] \<in> lang (Chars ''eE'')" using e(2) by auto
    have b: "es \<in> lang (Opt (Chars ''-+''))" using e(5) by (auto simp only: lang_sign)
    have c: "ed \<in> lang (Plus digit)" using e(3,4) by (simp only: lang_Plus_digit) simp
    have "[c] @ es @ ed \<in> lang exponent_pat" using a b c by (intro lang_SeqI)
    then have "ex \<in> lang exponent_pat" using e(1) by simp
    then show ?thesis by (simp only: lang.simps(3)) simp
  qed
  have "sg @ ip @ dt @ fd @ ex \<in> lang fitness_pattern"
    unfolding fitness_pattern_def using 1 2 3 4 5 by (intro lang_SeqI)
  then show ?thesis using d by simp
qed

lemma lang_is_token:
  assumes "tok \<in> lang fitness_pattern"
  shows "is_token tok"
proof -
  from lang_fitness_patternD [OF assms] obtain sg ip dt fd ex where
    w: "tok = sg @ ip @ dt @ fd @ ex" and sg: "sg = [] \<or> sg = ''-'' \<or> sg = ''+''"
    and ip: "list_all is_digit ip" and dt: "dt = [] \<or> dt = ''.''"
    and fd: "fd \<noteq> []" "list_all is_digit fd"
    and ex: "ex = [] \<or> (\<exists>e es ed. ex = e # es @ ed \<and> (e = CHR ''e'' \<or> e = CHR ''E'') \<and>
              (es = [] \<or> es = ''-'' \<or> es = ''+'') \<and> ed \<noteq> [] \<and> list_all is_digit ed)"
    by blast
  have "\<exists>k. exponent_denotes ex k"
  proof (cases "ex = []")
    case True
    then show ?thesis by (auto simp: exponent_denotes_def)
  next
    case False
    with ex obtain e es ed where e: "ex = e # es @ ed" "e = CHR ''e'' \<or> e = CHR ''E''"
      "es = [] \<or> es = ''-'' \<or> es = ''+''" "ed \<noteq> []" "list_all is_digit ed" by blast
    have "exponent_denotes (e # es @ ed) (if es = ''-'' then - int (dec ed) else int (dec ed))"
      unfolding exponent_denotes_def
      apply (rule disjI2)
      apply (rule exI [of _ e], rule exI [of _ es], rule exI [of _ ed])
      using e(2-5) by auto
    then have "exponent_denotes ex (if es = ''-'' then - int (dec ed) else int (dec ed))"
      using e(1) by simp
    then show ?thesis by blast
  qed
  then obtain k where k: "exponent_denotes ex k" by blast
  have "token_denotes tok ((if sg = ''-'' then - 1 else 1) * of_nat (dec (ip @ fd)) *
            10 powi (k - (if dt = [] then 0 else int (length fd))))"
    unfolding token_denotes_def using w sg ip dt fd k by blast
  then show ?thesis unfolding is_token_def by blast
qed

lemma is_token_iff: "is_token tok \<longleftrightarrow> tok \<in> lang fitness_pattern"
  using is_token_lang lang_is_token by blast

lemma has_token_iff: "has_token l \<longleftrightarrow> contains_match fitness_pattern l"
  by (simp add: has_token_def contains_match_def is_token_iff)

lemma py_float_denotes:
  assumes "token_denotes tok q"
  shows "py_float tok = Inr (round_to_double q)"
proof -
  from assms obtain sg ip dt fd ex k where
    w: "tok = sg @ ip @ dt @ fd @ ex" and sg: "sg = [] \<or> sg = ''+'' \<or> sg = ''-''"
    and ip: "list_all is_digit ip" and dt: "dt = [] \<or> dt = ''.''"
    and fd: "fd \<noteq> []" "list_all is_digit fd" and ex: "exponent_denotes ex k"
    and q: "q = (if sg = ''-'' then - 1 else 1) * of_nat (dec (ip @ fd)) *
            10 powi (k - (if dt = [] then 0 else int (length fd)))"
    unfolding token_denotes_def by blast
  have m: "tok \<in> lang fitness_pattern"
    using assms is_token_lang unfolding is_token_def by blast
  define body where "body = ip @ dt @ fd @ ex"
  define u where "u = rat_of_nat (dec (ip @ fd)) * 10 powi (k - (if dt = [] then 0 else int (length fd)))"
  note ch = lang_fitness_pattern_chars [OF m]
  have "token_char (hd tok)" "token_char (last tok)"
    using ch(1,2) by (simp_all add: list_all_iff)
  then have st: "float_strip tok = tok" using float_strip_id [of tok] ch(1) token_char_props by blast
  have "CHR ''_'' \<notin> set tok" using ch(2) token_char_props by (auto simp: list_all_iff)
  then have su: "strip_underscores (CHR 0x00) tok = Some tok" by (simp add: strip_underscores_id)
  have hb: "body \<noteq> [] \<and> (is_digit (hd body) \<or> hd body = CHR ''.'')"
  proof (cases ip)
    case Nil
    then show ?thesis using dt fd by (cases fd) (auto simp: body_def)
  next
    case (Cons c cs)
    then show ?thesis using ip by (simp add: body_def)
  qed
  have ss: "split_sign tok = (sg = ''-'', body)"
  proof -
    obtain c cs where c: "body = c # cs" using hb by (cases body) auto
    then have "c \<noteq> CHR ''-''" "c \<noteq> CHR ''+''" using hb digit_not_sign [of c] by auto
    then have "split_sign body = (False, body)" using c by (simp add: split_sign_def)
    moreover have "split_sign (''-'' @ body) = (True, body)"
      "split_sign (''+'' @ body) = (False, body)" by (simp_all add: split_sign_def)
    ultimately show ?thesis using sg w by (auto simp: body_def)
  qed
  have low: "map lower body \<noteq> ''inf''" "map lower body \<noteq> ''infinity''" "map lower body \<noteq> ''nan''"
  proof -
    obtain c cs where c: "body = c # cs" using hb by (cases body) auto
    then have "is_digit c \<or> c = CHR ''.''" using hb by simp
    then have "lower c \<noteq> CHR ''i'' \<and> lower c \<noteq> CHR ''n''"
      by (auto simp: is_digit_def lower_def)
    then show "map lower body \<noteq> ''inf''" "map lower body \<noteq> ''infinity''"
      "map lower body \<noteq> ''nan''" using c by auto
  qed
  have pd: "parse_decimal body = Some u"
    unfolding body_def u_def using ip dt fd ex by (rule parse_decimal_value)
  have "py_float tok = Inr (round_to_double (if sg = ''-'' then - u else u))"
    using st su ss low pd by (simp add: py_float_def)
  moreover have "q = (if sg = ''-'' then - u else u)" using q by (simp add: u_def)
  ultimately show ?thesis by simp
qed

lemma re_search_first_token:
  assumes "re_search fitness_pattern l = Some tok"
  shows "first_token l tok"
  using re_search_fitness_pattern [OF assms] unfolding first_token_def is_token_iff by blast

lemma first_token_unique:
  assumes "first_token l t1" "first_token l t2"
  shows "t1 = t2"
proof -
  from assms(1) obtain a1 b1 where
    1: "l = a1 @ t1 @ b1" "is_token t1"
       "\<forall>a' tok' b'. l = a' @ tok' @ b' \<and> is_token tok' \<longrightarrow>
          length a1 < length a' \<or> (length a1 = length a' \<and> length tok' \<le> length t1)"
    unfolding first_token_def by blast
  from assms(2) obtain a2 b2 where
    2: "l = a2 @ t2 @ b2" "is_token t2"
       "\<forall>a' tok' b'. l = a' @ tok' @ b' \<and> is_token tok' \<longrightarrow>
          length a2 < length a' \<or> (length a2 = length a' \<and> length tok' \<le> length t2)"
    unfolding first_token_def by blast
  have x: "length a1 < length a2 \<or> (length a1 = length a2 \<and> length t2 \<le> length t1)"
    using 1(3) 2(1,2) by blast
  have y: "length a2 < length a1 \<or> (length a2 = length a1 \<and> length t1 \<le> length t2)"
    using 2(3) 1(1,2) by blast
  from x y have la: "length a1 = length a2" and lt: "length t1 = length t2" by auto
  have "a1 @ t1 @ b1 = a2 @ t2 @ b2" using 1(1) 2(1) by simp
  then have "t1 @ b1 = t2 @ b2" using la by simp
  then show ?thesis using lt by simp
qed

section \<open>Rounding: values in the normal range\<close>

lemma floor_log2_eq:
  assumes "0 < a" "2 powi e \<le> a" "a < 2 powi (e + 1)"
  shows "floor_log2 a = e"
proof -
  define f where "f = floor_log2 a"
  have b: "(2::rat) powi f \<le> a" "a < (2::rat) powi (f + 1)"
    using floor_log2_bounds [OF assms(1)] by (simp_all add: f_def ipow_powi)
  have "\<not> f < e"
  proof
    assume "f < e"
    then have "(2::rat) powi (f + 1) \<le> 2 powi e" by (intro power_int_increasing) simp_all
    then show False using b(2) assms(2) by simp
  qed
  moreover have "\<not> e < f"
  proof
    assume "e < f"
    then have "(2::rat) powi (e + 1) \<le> 2 powi f" by (intro power_int_increasing) simp_all
    then show False using b(1) assms(3) by simp
  qed
  ultimately show ?thesis by (simp add: f_def)
qed

lemma round_half_even_eq:
  assumes "of_int n - 1 / 2 < x" "x < of_int n + 1 / 2"
  shows "round_half_even x = n"
proof (cases "of_int n \<le> x")
  case True
  then have "\<lfloor>x\<rfloor> = n" using assms(2) by (intro floor_unique) simp_all
  then show ?thesis using assms(2) by (simp add: round_half_even_def Let_def)
next
  case False
  then have "\<lfloor>x\<rfloor> = n - 1" using assms(1) by (intro floor_unique) simp_all
  then show ?thesis using assms(1) by (simp add: round_half_even_def Let_def)
qed

lemma round_to_double_normal:
  assumes "0 < a" "(2::rat) powi e \<le> a" "a < (2::rat) powi (e + 1)"
    "- 1022 \<le> e" "e \<le> 1022"
    "of_int n - 1 / 2 < a / (2::rat) powi (e - 52)"
    "a / (2::rat) powi (e - 52) < of_int n + 1 / 2"
  shows "round_to_double a = Finite (of_int n * 2 powi (e - 52))"
    and "round_to_double (- a) = Finite (- (of_int n * 2 powi (e - 52)))"
proof -
  define P where "P = (2::rat) powi (e - 52)"
  define T where "T = (2::rat) powi 1024"
  have Ppos: "0 < P" by (simp add: P_def)
  have f: "floor_log2 a = e" using assms(1,2,3) by (rule floor_log2_eq)
  have m: "max e (- 1022) = e" using assms(4) by simp
  have r: "round_half_even (a / P) = n"
    unfolding P_def using assms(6,7) by (rule round_half_even_eq)
  have e1: "(2::rat) powi (e + 1) = 2 powi 53 * P"
  proof -
    have "(2::rat) powi (53 + (e - 52)) = 2 powi 53 * 2 powi (e - 52)"
      by (rule power_int_add) simp
    moreover have "53 + (e - 52) = e + 1" by simp
    ultimately show ?thesis unfolding P_def by (simp only:)
  qed
  have "a < 2 powi 53 * P" using assms(3) e1 by simp
  then have "a / P < 2 powi 53" using Ppos by (simp add: pos_divide_less_eq)
  then have lt: "rat_of_int n < of_int (2 ^ 53) + 1 / 2" using assms(6) P_def by simp
  have n: "n \<le> 2 ^ 53"
  proof (rule ccontr)
    assume "\<not> n \<le> 2 ^ 53"
    then have "2 ^ 53 + 1 \<le> n" by simp
    then have "rat_of_int (2 ^ 53 + 1) \<le> of_int n" by (simp only: of_int_le_iff)
    then show False using lt by simp
  qed
  then have "rat_of_int n \<le> of_int (2 ^ 53)" by (simp only: of_int_le_iff)
  then have "rat_of_int n \<le> 2 powi 53" by simp
  then have "of_int n * P \<le> 2 powi 53 * P" using Ppos by (simp add: mult_right_mono)
  also have "\<dots> = 2 powi (e + 1)" using e1 by simp
  also have "\<dots> \<le> 2 powi 1023" using assms(5) by (intro power_int_increasing) simp_all
  also have "\<dots> < T" unfolding T_def by (intro power_int_strict_increasing) simp_all
  finally have nov: "\<not> T \<le> of_int n * P" by (simp only: not_le)
  have a: "a \<noteq> 0" "\<not> a < 0" "\<bar>a\<bar> = a" "- a \<noteq> 0" "- a < 0" "\<bar>- a\<bar> = a"
    using assms(1) by simp_all
  have "round_to_double a =
      (if T \<le> of_int n * P then (if a < 0 then NegInf else PosInf)
       else Finite (if a < 0 then - (of_int n * P) else of_int n * P))"
    unfolding round_to_double_def Let_def T_def P_def
    by (simp only: a(1) a(3) if_False f m ipow_powi r [unfolded P_def])
  then show "round_to_double a = Finite (of_int n * 2 powi (e - 52))"
    using nov a(2) by (simp add: P_def)
  have "round_to_double (- a) =
      (if T \<le> of_int n * P then (if - a < 0 then NegInf else PosInf)
       else Finite (if - a < 0 then - (of_int n * P) else of_int n * P))"
    unfolding round_to_double_def Let_def T_def P_def
    by (simp only: a(4) a(6) if_False f m ipow_powi r [unfolded P_def])
  then show "round_to_double (- a) = Finite (- (of_int n * 2 powi (e - 52)))"
    using nov a(5) by (simp add: P_def)
qed

lemma double_3_14:
  "round_to_double (157 / 50) = Finite (7070651414971679 / 2251799813685248)"
  using round_to_double_normal(1) [of "157 / 50" 1 7070651414971679] by simp

lemma double_minus_2_5e_3:
  "round_to_double (- (1 / 400)) = Finite (- (5764607523034235 / 2305843009213693952))"
  using round_to_double_normal(2) [of "1 / 400" "- 9" 5764607523034235] by simp

section \<open>Showing the specification's notions of a concrete text\<close>

lemma token_denotesI:
  assumes "sg = [] \<or> sg = ''+'' \<or> sg = ''-''" "list_all is_digit ip" "dt = [] \<or> dt = ''.''"
    "fd \<noteq> []" "list_all is_digit fd" "exponent_denotes ex k"
  shows "token_denotes (sg @ ip @ dt @ fd @ ex)
           ((if sg = ''-'' then - 1 else 1) * of_nat (dec (ip @ fd)) *
            10 powi (k - (if dt = [] then 0 else int (length fd))))"
  unfolding token_denotes_def using assms by blast

lemma exponent_denotesI:
  assumes "c = CHR ''e'' \<or> c = CHR ''E''" "ed \<noteq> []" "list_all is_digit ed"
    "(es = [] \<or> es = ''+'') \<and> k = int (dec ed) \<or> es = ''-'' \<and> k = - int (dec ed)"
  shows "exponent_denotes (c # es @ ed) k"
  unfolding exponent_denotes_def using assms by blast

lemma last_nonempty_lineI:
  assumes "pre = [] \<or> is_linebreak (last pre)" "list_all is_space ind" "l \<noteq> []"
    "\<not> is_space (hd l)" "\<not> is_space (last l)" "list_all (\<lambda>c. \<not> is_linebreak c) l"
    "list_all is_space suf"
  shows "last_nonempty_line (pre @ ind @ l @ suf) l"
  unfolding last_nonempty_line_def using assms by blast

lemma has_tokenI: "token_denotes tok q \<Longrightarrow> has_token (a @ tok @ b)"
  unfolding has_token_def is_token_def by blast

section \<open>The claims\<close>

text \<open>
  Claim C1. Let \<open>l\<close> be the last non-empty, whitespace-trimmed line of the text, and let
  it contain a numeric token (an optional sign, digits, an optional point, digits, an
  optional exponent). Then \<open>l\<close> has a first token, the one that starts furthest to the left
  and, among the tokens starting there, the longest, and the extraction returns the
  number this token denotes in decimal notation, rounded to binary64, and logs nothing.
  For \<open>noise\n3.14 extra text\n\<close> the token is \<open>3.14\<close>, it denotes 157/50, and the value
  is 7070651414971679 / 2^51, the double that prints as \<open>3.14\<close>; for
  \<open>line1\nline2\n-2.5e-3\n\<close> the token is \<open>-2.5e-3\<close>, it denotes -1/400, and the value is
  -5764607523034235 / 2^61, the double that prints as \<open>-0.0025\<close>.
\<close>
theorem fitness_is_first_token_of_last_line:
  assumes "last_nonempty_line raw l" and "has_token l"
  shows "(\<exists>tok q. first_token l tok \<and> token_denotes tok q) \<and>
         (\<forall>tok q. first_token l tok \<and> token_denotes tok q \<longrightarrow>
            parse_fitness ps raw = (Inr (round_to_double q), []))"
proof -
  have ne: "lines raw \<noteq> []" and la: "last (lines raw) = l"
    using lines_last_nonempty_line [OF assms(1)] by blast+
  from assms(2) obtain tok0 where s: "re_search fitness_pattern l = Some tok0"
    by (auto simp: has_token_iff contains_match_iff)
  have f0: "first_token l tok0" using s by (rule re_search_first_token)
  then have "is_token tok0" unfolding first_token_def by blast
  then obtain q0 where "token_denotes tok0 q0" unfolding is_token_def by blast
  with f0 have 1: "\<exists>tok q. first_token l tok \<and> token_denotes tok q" by blast
  have 2: "parse_fitness ps raw = (Inr (round_to_double q), [])"
    if "first_token l tok \<and> token_denotes tok q" for tok q
  proof -
    have "tok = tok0" using that f0 first_token_unique by blast
    then have "re_search fitness_pattern (last (lines raw)) = Some tok" using s la by simp
    moreover have "py_float tok = Inr (round_to_double q)"
      using that py_float_denotes by blast
    ultimately show ?thesis using ne parse_fitness_token by blast
  qed
  from 1 2 show ?thesis by blast
qed

theorem fitness_is_first_token_of_last_line_witness:
  "last_nonempty_line ''noise\<newline>3.14 extra text\<newline>'' ''3.14 extra text'' \<and>
   has_token ''3.14 extra text'' \<and>
   first_token ''3.14 extra text'' ''3.14'' \<and> token_denotes ''3.14'' (157 / 50) \<and>
   parse_fitness Map.empty ''noise\<newline>3.14 extra text\<newline>'' =
     (Inr (Finite (7070651414971679 / 2251799813685248)), []) \<and>
   last_nonempty_line ''line1\<newline>line2\<newline>-2.5e-3\<newline>'' ''-2.5e-3'' \<and>
   has_token ''-2.5e-3'' \<and>
   first_token ''-2.5e-3'' ''-2.5e-3'' \<and> token_denotes ''-2.5e-3'' (- (1 / 400)) \<and>
   parse_fitness Map.empty ''line1\<newline>line2\<newline>-2.5e-3\<newline>'' =
     (Inr (Finite (- (5764607523034235 / 2305843009213693952))), [])"
proof -
  have l1: "last_nonempty_line ''noise\<newline>3.14 extra text\<newline>'' ''3.14 extra text''"
    using last_nonempty_lineI [of "''noise\<newline>''" "[]" "''3.14 extra text''" "''\<newline>''"]
    by (simp add: is_linebreak_def is_space_def)
  have t1: "token_denotes ''3.14'' (157 / 50)"
    using token_denotesI [of "[]" "''3''" "''.''" "''14''" "[]" 0]
    by (simp add: exponent_denotes_def is_digit_def digit_of_def)
  have h1: "has_token ''3.14 extra text''"
    using has_tokenI [OF t1, of "[]" "'' extra text''"] by simp
  have "re_search fitness_pattern ''3.14 extra text'' = Some ''3.14''" by code_simp
  then have f1: "first_token ''3.14 extra text'' ''3.14''" by (rule re_search_first_token)
  have l2: "last_nonempty_line ''line1\<newline>line2\<newline>-2.5e-3\<newline>'' ''-2.5e-3''"
    using last_nonempty_lineI [of "''line1\<newline>line2\<newline>''" "[]" "''-2.5e-3''" "''\<newline>''"]
    by (simp add: is_linebreak_def is_space_def)
  have "exponent_denotes ''e-3'' (- 3)"
    using exponent_denotesI [of "CHR ''e''" "''3''" "''-''" "- 3"]
    by (simp add: is_digit_def digit_of_def)
  then have t2: "token_denotes ''-2.5e-3'' (- (1 / 400))"
    using token_denotesI [of "''-''" "''2''" "''.''" "''5''" "''e-3''" "- 3"]
    by (simp add: is_digit_def digit_of_def)
  have h2: "has_token ''-2.5e-3''"
    using has_tokenI [OF t2, of "[]" "[]"] by simp
  have "re_search fitness_pattern ''-2.5e-3'' = Some ''-2.5e-3''" by code_simp
  then have f2: "first_token ''-2.5e-3'' ''-2.5e-3''" by (rule re_search_first_token)
  from fitness_is_first_token_of_last_line [OF l1 h1, of Map.empty] f1 t1
  have p1: "parse_fitness Map.empty ''noise\<newline>3.14 extra text\<newline>'' =
      (Inr (Finite (7070651414971679 / 2251799813685248)), [])"
    unfolding double_3_14 [symmetric] by blast
  from fitness_is_first_token_of_last_line [OF l2 h2, of Map.empty] f2 t2
  have p2: "parse_fitness Map.empty ''line1\<newline>line2\<newline>-2.5e-3\<newline>'' =
      (Inr (Finite (- (5764607523034235 / 2305843009213693952))), [])"
    unfolding double_minus_2_5e_3 [symmetric] by blast
  from l1 h1 f1 t1 p1 l2 h2 f2 t2 p2 show ?thesis by blast
qed



text \<open>
  Claim C3, as amended. A call of \<open>objective\<close> returns a number when the child process
  times out (\<open>TimeoutExpired\<close>), when the program is not found (\<open>FileNotFoundError\<close>),
  and whenever the process completes, whatever its exit status and its output. Only
  those two exceptions are caught: any other exception that \<open>subprocess.run\<close> raises
  leaves \<open>objective\<close> unchanged, and nothing else leaves it.
\<close>
theorem objective_returns_or_propagates:
  assumes "c \<in> set (launched (objective e t))"
  shows "(\<exists>x. returned (objective e t) = Inr x \<and>
              (subprocess_run e c = Inl TimeoutExpired \<or>
               subprocess_run e c = Inl FileNotFoundError \<or>
               (\<exists>p. subprocess_run e c = Inr p))) \<or>
         (\<exists>ex. subprocess_run e c = Inl ex \<and> ex \<noteq> TimeoutExpired \<and> ex \<noteq> FileNotFoundError \<and>
               returned (objective e t) = Inl ex)"
proof -
  have c: "c = trial_cmd e t" using assms by (rule launchedD)
  show ?thesis
  proof (cases "subprocess_run e c")
    case (Inl ex)
    then show ?thesis unfolding c by (auto simp: objective_returned)
  next
    case (Inr p)
    obtain x where "fst (parse_fitness (params (suggested t)) (stdout p @ ''\<newline>'' @ stderr p)) = Inr x"
      using parse_fitness_cases by blast
    then show ?thesis using Inr unfolding c by (auto simp: objective_returned)
  qed
qed

theorem objective_returns_or_propagates_witness:
  "returned (objective (example_env (Inl TimeoutExpired)) fresh_trial) = Inr PosInf \<and>
   returned (objective (example_env (Inl FileNotFoundError)) fresh_trial) = Inr PosInf \<and>
   returned (objective (example_env (Inl UnicodeDecodeError)) fresh_trial) = Inl UnicodeDecodeError"
proof -
  have l: "trial_cmd (example_env r) fresh_trial \<in> set (launched (objective (example_env r) fresh_trial))"
    for r by (simp add: objective_launched)
  show ?thesis
    using objective_returns_or_propagates [OF l [of "Inl TimeoutExpired"]]
      objective_returns_or_propagates [OF l [of "Inl FileNotFoundError"]]
      objective_returns_or_propagates [OF l [of "Inl UnicodeDecodeError"]]
    by (auto simp: objective_returned)
qed

theorem objective_raises_PermissionError:
  "returned (objective (example_env (Inl PermissionError)) fresh_trial) = Inl PermissionError"
  by (simp add: objective_returned)

text \<open>
  Claim C4, as amended. A value that \<open>objective\<close> returns is a finite number of magnitude
  below \<open>2^1024\<close>, plus infinity, or minus infinity (a token such as \<open>-1e309\<close>, whose
  magnitude is beyond the range of binary64, parses to an infinity); it is never NaN.
\<close>
theorem objective_value_range:
  assumes "returned (objective e t) = Inr x"
  shows "x = PosInf \<or> x = NegInf \<or> (\<exists>r. x = Finite r \<and> \<bar>r\<bar> < 2 ^ 1024)"
proof -
  have "x = PosInf \<or> (\<exists>q. x = round_to_double q)"
  proof (cases "subprocess_run e (trial_cmd e t)")
    case (Inl ex)
    then show ?thesis using assms by (auto simp: objective_returned split: if_splits)
  next
    case (Inr p)
    then show ?thesis
      using assms parse_fitness_cases [of "params (suggested t)" "stdout p @ ''\<newline>'' @ stderr p"]
      by (auto simp: objective_returned)
  qed
  then show ?thesis
    using round_to_double_cases round_to_double_Finite by metis
qed

theorem objective_value_range_witness:
  "returned (objective (example_env (Inr \<lparr>returncode = 0, stdout = ''Fitness: 12.345'', stderr = []\<rparr>))
      fresh_trial) = Inr (round_to_double (2469 / 200)) \<and>
   (round_to_double (2469 / 200) = PosInf \<or> round_to_double (2469 / 200) = NegInf \<or>
    (\<exists>r. round_to_double (2469 / 200) = Finite r \<and> \<bar>r\<bar> < 2 ^ 1024))"
proof -
  have r: "returned (objective (example_env (Inr \<lparr>returncode = 0, stdout = ''Fitness: 12.345'', stderr = []\<rparr>))
      fresh_trial) = Inr (round_to_double (2469 / 200))"
    by (simp add: objective_returned fitness_12_345)
  from objective_value_range [OF r] r show ?thesis by simp
qed

theorem objective_returns_negative_infinity:
  "returned (objective (example_env (Inr \<lparr>returncode = 0, stdout = ''-1e309'', stderr = []\<rparr>))
      fresh_trial) = Inr NegInf"
  by (simp add: objective_returned fitness_overflow)

text \<open>
  Claim C5, as amended. When the launch of the child process ends in \<open>TimeoutExpired\<close>
  or in \<open>FileNotFoundError\<close>, \<open>objective\<close> returns the sentinel after that single launch
  (no retry) and logs one record: for a timeout a warning that carries the whole
  parameter dictionary, which holds all five parameters; for a program that is not found
  an error that carries the exception and not the parameters.
\<close>
theorem timeout_and_launch_failure:
  assumes "c \<in> set (launched (objective e t))" and "subprocess_run e c = Inl ex"
    and "ex = TimeoutExpired \<or> ex = FileNotFoundError"
  shows "returned (objective e t) = Inr PosInf \<and> launched (objective e t) = [c] \<and>
         logged (objective e t) =
           [if ex = TimeoutExpired
            then (WARNING, ''Subprocess timed out for params: %s'',
                  [ArgParams (params (trial_after (objective e t)))])
            else (ERROR, ''Failed to run subprocess: %s'', [ArgExn ex])] \<and>
         {''swarmSize'', ''maxIters'', ''inertias'', ''c1s'', ''c2s''}
           \<subseteq> dom (params (trial_after (objective e t)))"
proof -
  have c: "c = trial_cmd e t" using assms(1) by (rule launchedD)
  have "returned (objective e t) = Inr PosInf"
    using assms(2,3) unfolding c by (auto simp: objective_returned)
  moreover have "launched (objective e t) = [c]" by (simp add: c objective_launched)
  moreover have "logged (objective e t) =
           [if ex = TimeoutExpired
            then (WARNING, ''Subprocess timed out for params: %s'',
                  [ArgParams (params (trial_after (objective e t)))])
            else (ERROR, ''Failed to run subprocess: %s'', [ArgExn ex])]"
    using assms(2,3) unfolding c by (auto simp: objective_logged objective_trial_after)
  moreover have "{''swarmSize'', ''maxIters'', ''inertias'', ''c1s'', ''c2s''}
           \<subseteq> dom (params (trial_after (objective e t)))"
    by (simp only: objective_trial_after suggested_params_dom) simp
  ultimately show ?thesis by blast
qed

theorem timeout_and_launch_failure_witness:
  "returned (objective (example_env (Inl TimeoutExpired)) fresh_trial) = Inr PosInf \<and>
   launched (objective (example_env (Inl TimeoutExpired)) fresh_trial) =
     [[''java'', ''-jar'', ''/opt/pso/thermoforming_optimization-1.0.jar'',
       ''10'', ''50'', ''0.1'', ''0.1'', ''0.1'']] \<and>
   logged (objective (example_env (Inl TimeoutExpired)) fresh_trial) =
     [(WARNING, ''Subprocess timed out for params: %s'',
       [ArgParams (params (trial_after (objective (example_env (Inl TimeoutExpired)) fresh_trial)))])]"
proof -
  have s: "str_int 10 = ''10''" "str_int 50 = ''50''" by code_simp+
  have c: "trial_cmd (example_env (Inl TimeoutExpired)) fresh_trial =
      [''java'', ''-jar'', ''/opt/pso/thermoforming_optimization-1.0.jar'',
       ''10'', ''50'', ''0.1'', ''0.1'', ''0.1'']"
    by (simp add: trial_cmd_def fresh_trial_def s)
  have l: "trial_cmd (example_env (Inl TimeoutExpired)) fresh_trial
      \<in> set (launched (objective (example_env (Inl TimeoutExpired)) fresh_trial))"
    by (simp add: objective_launched)
  have r: "subprocess_run (example_env (Inl TimeoutExpired))
      (trial_cmd (example_env (Inl TimeoutExpired)) fresh_trial) = Inl TimeoutExpired" by simp
  from timeout_and_launch_failure [OF l r] c show ?thesis by simp
qed

theorem launch_failure_log:
  "logged (objective (example_env (Inl FileNotFoundError)) fresh_trial) =
     [(ERROR, ''Failed to run subprocess: %s'', [ArgExn FileNotFoundError])]"
  by (simp add: objective_logged)

text \<open>
  Claim C7. The value that \<open>objective\<close> returns for a completed process is a function of
  the combined text \<open>stdout + "\n" + stderr\<close> alone: two calls whose processes completed
  with the same combined text return the same value, whatever the exit codes, the
  surroundings and the parameters drawn. A non-zero exit code adds a warning to the log
  and the text is parsed all the same.
\<close>
theorem fitness_depends_only_on_combined_text:
  assumes "c1 \<in> set (launched (objective e1 t1))" and "subprocess_run e1 c1 = Inr p1"
    and "c2 \<in> set (launched (objective e2 t2))" and "subprocess_run e2 c2 = Inr p2"
    and "join ''\<newline>'' [stdout p1, stderr p1] = join ''\<newline>'' [stdout p2, stderr p2]"
  shows "returned (objective e1 t1) = returned (objective e2 t2) \<and>
         returned (objective e1 t1) =
           fst (parse_fitness Map.empty (join ''\<newline>'' [stdout p1, stderr p1]))"
proof -
  have c: "c1 = trial_cmd e1 t1" "c2 = trial_cmd e2 t2"
    using assms(1,3) by (auto dest: launchedD)
  have i: "fst (parse_fitness ps raw) = fst (parse_fitness Map.empty raw)" for ps raw
    by (simp only: parse_fitness_value)
  have j: "join ''\<newline>'' [stdout p, stderr p] = stdout p @ ''\<newline>'' @ stderr p"
    for p :: completed_process by simp
  have 1: "returned (objective e1 t1) =
      fst (parse_fitness Map.empty (join ''\<newline>'' [stdout p1, stderr p1]))"
    using assms(2) unfolding c j by (simp add: objective_returned i [of "params (suggested t1)"])
  have 2: "returned (objective e2 t2) =
      fst (parse_fitness Map.empty (join ''\<newline>'' [stdout p2, stderr p2]))"
    using assms(4) unfolding c j by (simp add: objective_returned i [of "params (suggested t2)"])
  show ?thesis using 1 2 assms(5) by simp
qed

theorem fitness_depends_only_on_combined_text_witness:
  "returned (objective (example_env (Inr \<lparr>returncode = 0, stdout = ''Fitness: 12.345'', stderr = []\<rparr>))
      fresh_trial) =
   returned (objective (example_env (Inr \<lparr>returncode = 3, stdout = ''Fitness: 12.345'', stderr = []\<rparr>))
      fresh_trial)"
proof -
  have l: "trial_cmd (example_env r) fresh_trial \<in> set (launched (objective (example_env r) fresh_trial))"
    for r by (simp add: objective_launched)
  have r: "subprocess_run (example_env (Inr p)) (trial_cmd (example_env (Inr p)) fresh_trial) = Inr p"
    for p by simp
  have j: "join ''\<newline>'' [stdout \<lparr>returncode = 0, stdout = ''Fitness: 12.345'', stderr = []\<rparr>,
                       stderr \<lparr>returncode = 0, stdout = ''Fitness: 12.345'', stderr = []\<rparr>] =
           join ''\<newline>'' [stdout \<lparr>returncode = 3, stdout = ''Fitness: 12.345'', stderr = []\<rparr>,
                       stderr \<lparr>returncode = 3, stdout = ''Fitness: 12.345'', stderr = []\<rparr>]"
    by simp
  from fitness_depends_only_on_combined_text [OF l r l r j] show ?thesis by blast
qed

text \<open>
  Claim C8, as amended. On a trial that has not been asked for a parameter yet, one
  call of \<open>objective\<close> draws exactly five parameters, named \<open>swarmSize\<close>, \<open>maxIters\<close>,
  \<open>inertias\<close>, \<open>c1s\<close> and \<open>c2s\<close>, with the requests: \<open>swarmSize\<close> an integer in
  \<open>[10, 100]\<close>, \<open>maxIters\<close> an integer in \<open>[50, 1000]\<close>, \<open>inertias\<close> a float in
  \<open>[0.1, 1.0]\<close>, \<open>c1s\<close> and \<open>c2s\<close> floats in \<open>[0.1, 3.0]\<close>.
\<close>
theorem parameter_vector_schema:
  assumes "params t = Map.empty" and "distributions t = Map.empty"
  shows "dom (params (trial_after (objective e t))) =
           {''swarmSize'', ''maxIters'', ''inertias'', ''c1s'', ''c2s''} \<and>
         (\<exists>swarmSize maxIters inertias c1s c2s.
            params (trial_after (objective e t)) =
              [''swarmSize'' \<mapsto> PInt swarmSize, ''maxIters'' \<mapsto> PInt maxIters,
               ''inertias'' \<mapsto> PFloat inertias, ''c1s'' \<mapsto> PFloat c1s, ''c2s'' \<mapsto> PFloat c2s]) \<and>
         distributions (trial_after (objective e t)) =
           [''swarmSize'' \<mapsto> IntDistribution 10 100,
            ''maxIters'' \<mapsto> IntDistribution 50 1000,
            ''inertias'' \<mapsto> FloatDistribution (round_to_double (1 / 10)) (round_to_double 1),
            ''c1s'' \<mapsto> FloatDistribution (round_to_double (1 / 10)) (round_to_double 3),
            ''c2s'' \<mapsto> FloatDistribution (round_to_double (1 / 10)) (round_to_double 3)]"
proof -
  have "dom (params (trial_after (objective e t))) =
           {''swarmSize'', ''maxIters'', ''inertias'', ''c1s'', ''c2s''}"
    using assms(1) by (simp only: objective_trial_after suggested_params_dom) simp
  moreover have "\<exists>swarmSize maxIters inertias c1s c2s.
            params (trial_after (objective e t)) =
              [''swarmSize'' \<mapsto> PInt swarmSize, ''maxIters'' \<mapsto> PInt maxIters,
               ''inertias'' \<mapsto> PFloat inertias, ''c1s'' \<mapsto> PFloat c1s, ''c2s'' \<mapsto> PFloat c2s]"
    using assms(1) by (simp only: objective_trial_after) (simp add: suggested_def, blast)
  moreover have "distributions (trial_after (objective e t)) =
           [''swarmSize'' \<mapsto> IntDistribution 10 100,
            ''maxIters'' \<mapsto> IntDistribution 50 1000,
            ''inertias'' \<mapsto> FloatDistribution (round_to_double (1 / 10)) (round_to_double 1),
            ''c1s'' \<mapsto> FloatDistribution (round_to_double (1 / 10)) (round_to_double 3),
            ''c2s'' \<mapsto> FloatDistribution (round_to_double (1 / 10)) (round_to_double 3)]"
    using assms(2) by (simp only: objective_trial_after) (simp add: suggested_def)
  ultimately show ?thesis by blast
qed

theorem parameter_vector_schema_witness:
  "params fresh_trial = Map.empty \<and> distributions fresh_trial = Map.empty \<and>
   dom (params (trial_after (objective (example_env (Inl TimeoutExpired)) fresh_trial))) =
     {''swarmSize'', ''maxIters'', ''inertias'', ''c1s'', ''c2s''} \<and>
   distributions (trial_after (objective (example_env (Inl TimeoutExpired)) fresh_trial)) =
     [''swarmSize'' \<mapsto> IntDistribution 10 100,
      ''maxIters'' \<mapsto> IntDistribution 50 1000,
      ''inertias'' \<mapsto> FloatDistribution (round_to_double (1 / 10)) (round_to_double 1),
      ''c1s'' \<mapsto> FloatDistribution (round_to_double (1 / 10)) (round_to_double 3),
      ''c2s'' \<mapsto> FloatDistribution (round_to_double (1 / 10)) (round_to_double 3)]"
proof -
  have a: "params fresh_trial = Map.empty" and b: "distributions fresh_trial = Map.empty"
    by (simp_all add: fresh_trial_def)
  from parameter_vector_schema [OF a b, of "example_env (Inl TimeoutExpired)"] a b
  show ?thesis by blast
qed

theorem no_parameter_named_inertia:
  "params (trial_after (objective (example_env (Inl TimeoutExpired)) fresh_trial)) ''inertia'' = None"
  by (simp add: objective_trial_after suggested_def fresh_trial_def)

text \<open>
  Claim C9. The command that \<open>objective\<close> hands to \<open>subprocess.run\<close> is the prefix
  \<open>java -jar <jar>\<close> followed by exactly five arguments: \<open>str\<close> of the values drawn
  for \<open>swarmSize\<close>, \<open>maxIters\<close>, \<open>inertias\<close>, \<open>c1s\<close> and \<open>c2s\<close>, in that order. The
  two integers are written as decimal digits after an optional minus sign.
\<close>
theorem command_arguments:
  "\<exists>swarmSize maxIters inertias c1s c2s ds1 ds2.
     params (trial_after (objective e t)) ''swarmSize'' = Some (PInt swarmSize) \<and>
     params (trial_after (objective e t)) ''maxIters'' = Some (PInt maxIters) \<and>
     params (trial_after (objective e t)) ''inertias'' = Some (PFloat inertias) \<and>
     params (trial_after (objective e t)) ''c1s'' = Some (PFloat c1s) \<and>
     params (trial_after (objective e t)) ''c2s'' = Some (PFloat c2s) \<and>
     launched (objective e t) =
       [[''java'', ''-jar'', JAR_PATH e] @
        [str_int swarmSize, str_int maxIters,
         str_float e inertias, str_float e c1s, str_float e c2s]] \<and>
     str_int swarmSize = (if swarmSize < 0 then ''-'' else []) @ ds1 \<and>
     ds1 \<noteq> [] \<and> list_all is_digit ds1 \<and> int (digits_value ds1) = \<bar>swarmSize\<bar> \<and>
     str_int maxIters = (if maxIters < 0 then ''-'' else []) @ ds2 \<and>
     ds2 \<noteq> [] \<and> list_all is_digit ds2 \<and> int (digits_value ds2) = \<bar>maxIters\<bar>"
proof -
  obtain ds1 where 1: "str_int (sample_int t ''swarmSize'' 10 100) =
      (if sample_int t ''swarmSize'' 10 100 < 0 then ''-'' else []) @ ds1"
    "ds1 \<noteq> []" "list_all is_digit ds1"
    "int (digits_value ds1) = \<bar>sample_int t ''swarmSize'' 10 100\<bar>"
    using str_int_decimal by blast
  obtain ds2 where 2: "str_int (sample_int t ''maxIters'' 50 1000) =
      (if sample_int t ''maxIters'' 50 1000 < 0 then ''-'' else []) @ ds2"
    "ds2 \<noteq> []" "list_all is_digit ds2"
    "int (digits_value ds2) = \<bar>sample_int t ''maxIters'' 50 1000\<bar>"
    using str_int_decimal by blast
  have p: "params (trial_after (objective e t)) ''swarmSize'' = Some (PInt (sample_int t ''swarmSize'' 10 100))"
    "params (trial_after (objective e t)) ''maxIters'' = Some (PInt (sample_int t ''maxIters'' 50 1000))"
    "params (trial_after (objective e t)) ''inertias'' =
       Some (PFloat (sample_float t ''inertias'' (round_to_double (1 / 10)) (round_to_double 1)))"
    "params (trial_after (objective e t)) ''c1s'' =
       Some (PFloat (sample_float t ''c1s'' (round_to_double (1 / 10)) (round_to_double 3)))"
    "params (trial_after (objective e t)) ''c2s'' =
       Some (PFloat (sample_float t ''c2s'' (round_to_double (1 / 10)) (round_to_double 3)))"
    by (simp_all add: objective_trial_after suggested_def)
  have l: "launched (objective e t) =
       [[''java'', ''-jar'', JAR_PATH e] @
        [str_int (sample_int t ''swarmSize'' 10 100), str_int (sample_int t ''maxIters'' 50 1000),
         str_float e (sample_float t ''inertias'' (round_to_double (1 / 10)) (round_to_double 1)),
         str_float e (sample_float t ''c1s'' (round_to_double (1 / 10)) (round_to_double 3)),
         str_float e (sample_float t ''c2s'' (round_to_double (1 / 10)) (round_to_double 3))]]"
    by (simp add: objective_launched trial_cmd_def)
  from p l 1 2 show ?thesis by blast
qed

theorem command_arguments_witness:
  "\<exists>swarmSize maxIters inertias c1s c2s ds1 ds2.
     params (trial_after (objective (example_env (Inl TimeoutExpired)) fresh_trial)) ''swarmSize'' = Some (PInt swarmSize) \<and>
     params (trial_after (objective (example_env (Inl TimeoutExpired)) fresh_trial)) ''maxIters'' = Some (PInt maxIters) \<and>
     params (trial_after (objective (example_env (Inl TimeoutExpired)) fresh_trial)) ''inertias'' = Some (PFloat inertias) \<and>
     params (trial_after (objective (example_env (Inl TimeoutExpired)) fresh_trial)) ''c1s'' = Some (PFloat c1s) \<and>
     params (trial_after (objective (example_env (Inl TimeoutExpired)) fresh_trial)) ''c2s'' = Some (PFloat c2s) \<and>
     launched (objective (example_env (Inl TimeoutExpired)) fresh_trial) =
       [[''java'', ''-jar'', JAR_PATH (example_env (Inl TimeoutExpired))] @
        [str_int swarmSize, str_int maxIters,
         str_float (example_env (Inl TimeoutExpired)) inertias,
         str_float (example_env (Inl TimeoutExpired)) c1s,
         str_float (example_env (Inl TimeoutExpired)) c2s]] \<and>
     str_int swarmSize = (if swarmSize < 0 then ''-'' else []) @ ds1 \<and>
     ds1 \<noteq> [] \<and> list_all is_digit ds1 \<and> int (digits_value ds1) = \<bar>swarmSize\<bar> \<and>
     str_int maxIters = (if maxIters < 0 then ''-'' else []) @ ds2 \<and>
     ds2 \<noteq> [] \<and> list_all is_digit ds2 \<and> int (digits_value ds2) = \<bar>maxIters\<bar>"
  by (rule command_arguments)

text \<open>
  Claim C10. The numeric-token pattern matches only texts made of signs, points, the
  letters \<open>e\<close> and \<open>E\<close> and decimal digits, with a digit among them; it does not
  match \<open>nan\<close> in any letter case. \<open>float\<close> of such a token is the rounding of a rational
  number, never NaN (while \<open>float('nan')\<close> is NaN: \<open>py_float_nan\<close>). So no call of
  \<open>objective\<close> returns NaN.
\<close>
theorem fitness_never_NaN:
  assumes "tok \<in> lang fitness_pattern"
  shows "list_all token_char tok \<and> (\<exists>c. c \<in> set tok \<and> is_digit c) \<and>
         map lower tok \<noteq> ''nan'' \<and>
         (\<exists>q. py_float tok = Inr (round_to_double q)) \<and> py_float tok \<noteq> Inr NaN \<and>
         returned (objective e t) \<noteq> Inr NaN"
proof -
  note ch = lang_fitness_pattern_chars [OF assms]
  have d: "\<exists>c. c \<in> set tok \<and> is_digit c" using ch(1,3) last_in_set by blast
  obtain c cs where c: "tok = c # cs" using ch(1) by (cases tok) auto
  then have "token_char c" using ch(2) by simp
  then have n: "map lower tok \<noteq> ''nan''" using c lower_token_char by auto
  from py_float_token [OF assms] obtain q where q: "py_float tok = Inr (round_to_double q)" by blast
  then have nn: "py_float tok \<noteq> Inr NaN" by (simp add: round_to_double_not_NaN)
  have "returned (objective e t) \<noteq> Inr NaN"
  proof
    assume "returned (objective e t) = Inr NaN"
    then obtain p where p: "subprocess_run e (trial_cmd e t) = Inr p"
      "fst (parse_fitness (params (suggested t)) (stdout p @ ''\<newline>'' @ stderr p)) = Inr NaN"
      by (auto simp: objective_returned split: sum.splits if_splits)
    from parse_fitness_cases [of "params (suggested t)" "stdout p @ ''\<newline>'' @ stderr p"]
    have "NaN = PosInf \<or> (\<exists>q. NaN = round_to_double q)" unfolding p(2) by simp
    then show False using round_to_double_not_NaN [symmetric] by auto
  qed
  with ch(2) d n q nn show ?thesis by blast
qed

theorem fitness_never_NaN_witness:
  "''3.14'' \<in> lang fitness_pattern \<and> list_all token_char ''3.14'' \<and>
   py_float ''3.14'' \<noteq> Inr NaN \<and>
   returned (objective (example_env (Inr \<lparr>returncode = 0, stdout = ''nan'', stderr = []\<rparr>))
      fresh_trial) \<noteq> Inr NaN"
proof -
  have "re_search fitness_pattern ''3.14'' = Some ''3.14''" by code_simp
  from re_search_leftmost [OF this] have m: "''3.14'' \<in> lang fitness_pattern" by blast
  from fitness_never_NaN [OF m] m show ?thesis by blast
qed

end
